theory Spec2Isabelle
  imports Complex_Main
begin

section \<open>The wallet of \<^verbatim>\<open>src/wallet.js\<close>\<close>

text \<open>
  The class \<^verbatim>\<open>Wallet\<close> holds an array of coins, an object used as an
  address-to-keypair table and one key pair made at construction. Every method is
  modelled as a function from the wallet before the call to the outcome of the call
  (a returned value or a thrown error) paired with the wallet after the call, so that
  what a throwing call leaves behind is part of the model.
\<close>

subsection \<open>JavaScript numbers\<close>

text \<open>
  Amounts are JavaScript numbers: IEEE 754 binary64 values. A finite value is modelled
  by the real number it denotes (\<open>Fin 0\<close> is \<^verbatim>\<open>+0\<close>), next to
  \<^verbatim>\<open>NaN\<close>, the two infinities and \<^verbatim>\<open>-0\<close>. The finite doubles are the
  multiples \<open>k * 2^-1074\<close> whose integer \<open>k\<close> has at most 53 significant bits, below
  \<open>2^1024\<close> in magnitude.
\<close>

datatype jsnum = NaN | PosInf | NegInf | NegZero | Fin real

fun val :: "jsnum \<Rightarrow> real" where
  "val (Fin r) = r"
| "val x = 0"

text \<open>The number of bits by which a natural number exceeds 53 bits.\<close>

function excess :: "nat \<Rightarrow> nat" where
  "excess n = (if n < 2 ^ 53 then 0 else Suc (excess (n div 2)))"
  by pat_completeness auto
termination
  by (relation "measure (\<lambda>n. n)") auto

text \<open>Rounding to the nearest integer, a tie going to the even one.\<close>

definition rhe :: "real \<Rightarrow> int" where
  "rhe x =
     (let f = \<lfloor>x\<rfloor>; d = x - of_int f
      in if d < 1 / 2 then f else if 1 / 2 < d then f + 1 else if even f then f else f + 1)"

text \<open>
  Rounding a real number to the nearest double with an unbounded exponent, ties to
  even: the magnitude is counted in units of \<open>2^-1074\<close>, the spacing of the doubles
  around it is \<open>u\<close> of these units, and the result is the nearest multiple of \<open>u\<close>.
\<close>

definition round_double :: "real \<Rightarrow> real" where
  "round_double r =
     (let s = \<bar>r\<bar> * 2 ^ 1074; u = 2 ^ excess (nat \<lfloor>s\<rfloor>)
      in sgn r * of_int (rhe (s / of_nat u) * int u) / 2 ^ 1074)"

text \<open>The double that an operation returns for the exact result \<open>r\<close>: a rounded
  magnitude of \<open>2^1024\<close> or more overflows to an infinity.\<close>

definition to_double :: "real \<Rightarrow> jsnum" where
  "to_double r =
     (let d = round_double r
      in if 2 ^ 1024 \<le> d then PosInf
         else if d \<le> - (2 ^ 1024) then NegInf
         else if d = 0 then (if r < 0 then NegZero else Fin 0)
         else Fin d)"

text \<open>\<^verbatim>\<open>x + y\<close>: an exact sum of zero is \<^verbatim>\<open>+0\<close>, except for
  \<^verbatim>\<open>-0 + -0\<close>.\<close>

fun js_add :: "jsnum \<Rightarrow> jsnum \<Rightarrow> jsnum" where
  "js_add NaN y = NaN"
| "js_add x NaN = NaN"
| "js_add PosInf NegInf = NaN"
| "js_add NegInf PosInf = NaN"
| "js_add PosInf y = PosInf"
| "js_add x PosInf = PosInf"
| "js_add NegInf y = NegInf"
| "js_add x NegInf = NegInf"
| "js_add NegZero NegZero = NegZero"
| "js_add x y = (if val x + val y = 0 then Fin 0 else to_double (val x + val y))"

fun js_neg :: "jsnum \<Rightarrow> jsnum" where
  "js_neg NaN = NaN"
| "js_neg PosInf = NegInf"
| "js_neg NegInf = PosInf"
| "js_neg NegZero = Fin 0"
| "js_neg (Fin r) = (if r = 0 then NegZero else Fin (- r))"

text \<open>\<^verbatim>\<open>x - y\<close>\<close>

definition js_sub :: "jsnum \<Rightarrow> jsnum \<Rightarrow> jsnum" where
  "js_sub x y = js_add x (js_neg y)"

text \<open>\<^verbatim>\<open>x < y\<close>, \<^verbatim>\<open>x > y\<close> and \<^verbatim>\<open>x === y\<close>: false when an
  operand is \<^verbatim>\<open>NaN\<close>; the two zeros are equal.\<close>

fun js_lt :: "jsnum \<Rightarrow> jsnum \<Rightarrow> bool" where
  "js_lt NaN y = False"
| "js_lt x NaN = False"
| "js_lt PosInf y = False"
| "js_lt x PosInf = True"
| "js_lt x NegInf = False"
| "js_lt NegInf y = True"
| "js_lt x y = (val x < val y)"

definition js_gt :: "jsnum \<Rightarrow> jsnum \<Rightarrow> bool" where
  "js_gt x y = js_lt y x"

fun js_eq :: "jsnum \<Rightarrow> jsnum \<Rightarrow> bool" where
  "js_eq NaN y = False"
| "js_eq x NaN = False"
| "js_eq PosInf y = (y = PosInf)"
| "js_eq x PosInf = False"
| "js_eq NegInf y = (y = NegInf)"
| "js_eq x NegInf = False"
| "js_eq x y = (val x = val y)"

text \<open>\<^verbatim>\<open>x >= 0\<close>\<close>

fun nonneg :: "jsnum \<Rightarrow> bool" where
  "nonneg NaN = False"
| "nonneg PosInf = True"
| "nonneg NegInf = False"
| "nonneg NegZero = True"
| "nonneg (Fin r) = (0 \<le> r)"

subsection \<open>Data\<close>

record utxo =
  amount :: jsnum
  address :: string

record coin =
  "output" :: utxo
  txID :: string
  outputIndex :: int

record keypair =
  "public" :: string
  "private" :: string

text \<open>
  The object pushed on \<^verbatim>\<open>inputs\<close>. Its \<^verbatim>\<open>txID\<close> and
  \<^verbatim>\<open>outputIndex\<close> fields are prefixed, since a coin has fields of the same
  names. \<^verbatim>\<open>pubKey\<close> is \<open>None\<close> when the property read gives
  \<^verbatim>\<open>undefined\<close>.
\<close>

record tx_input =
  in_txID :: string
  in_outputIndex :: int
  pubKey :: "string option"
  sig :: string

datatype error = UnknownAddress | InsufficientFunds | TypeError | ExternalFailure

subsection \<open>The address table: a plain JavaScript object\<close>

text \<open>
  \<^verbatim>\<open>this.addresses = {}\<close> is an ordinary object, so a property read
  \<^verbatim>\<open>this.addresses[a]\<close> looks at the object's own properties first and then
  along its prototype chain, which ends in \<^verbatim>\<open>Object.prototype\<close>. The own
  properties are the key pairs stored by \<^verbatim>\<open>makeAddress\<close>. An assignment to
  the property \<^verbatim>\<open>__proto__\<close> stores no own property: it replaces the
  prototype by the assigned object.
\<close>

record addrobj =
  own :: "string \<rightharpoonup> keypair"
  proto :: "keypair option"

text \<open>What a property read can give.\<close>

datatype jsval =
  Undefined
  | KeyPair keypair
  | Str string
  | Builtin

text \<open>The property names of \<^verbatim>\<open>Object.prototype\<close> other than \<^verbatim>\<open>__proto__\<close>;
  each holds a function.\<close>

definition object_prototype_names :: "string list" where
  "object_prototype_names =
     [''constructor'', ''hasOwnProperty'', ''isPrototypeOf'', ''propertyIsEnumerable'',
      ''toLocaleString'', ''toString'', ''valueOf'',
      ''__defineGetter__'', ''__defineSetter__'', ''__lookupGetter__'', ''__lookupSetter__'']"

definition empty_obj :: addrobj where
  "empty_obj = \<lparr>own = Map.empty, proto = None\<rparr>"

definition get_prop :: "addrobj \<Rightarrow> string \<Rightarrow> jsval" where
  "get_prop ab a =
     (if a = ''__proto__'' then
        (case proto ab of None \<Rightarrow> Builtin | Some p \<Rightarrow> KeyPair p)
      else
        (case own ab a of
           Some k \<Rightarrow> KeyPair k
         | None \<Rightarrow>
             (case proto ab of
                Some p \<Rightarrow>
                  if a = ''public'' then Str (public p)
                  else if a = ''private'' then Str (private p)
                  else if a \<in> set object_prototype_names then Builtin
                  else Undefined
              | None \<Rightarrow>
                  if a \<in> set object_prototype_names then Builtin else Undefined)))"

definition set_prop :: "addrobj \<Rightarrow> string \<Rightarrow> keypair \<Rightarrow> addrobj" where
  "set_prop ab a k =
     (if a = ''__proto__'' then ab\<lparr>proto := Some k\<rparr>
      else ab\<lparr>own := (own ab)(a \<mapsto> k)\<rparr>)"

text \<open>\<^verbatim>\<open>!!v\<close>\<close>

fun truthy :: "jsval \<Rightarrow> bool" where
  "truthy Undefined = False"
| "truthy (KeyPair k) = True"
| "truthy (Str s) = (s \<noteq> [])"
| "truthy Builtin = True"

text \<open>\<^verbatim>\<open>v.public\<close> and \<^verbatim>\<open>v.private\<close> for a value \<open>v\<close> that is not
  \<^verbatim>\<open>undefined\<close>: a key pair has them, a string or a built-in gives
  \<^verbatim>\<open>undefined\<close>.\<close>

fun public_of :: "jsval \<Rightarrow> string option" where
  "public_of (KeyPair k) = Some (public k)"
| "public_of v = None"

fun private_of :: "jsval \<Rightarrow> string option" where
  "private_of (KeyPair k) = Some (private k)"
| "private_of v = None"

subsection \<open>The wallet\<close>

record wallet =
  coins :: "coin list"
  addresses :: addrobj
  kp :: keypair

text \<open>
  \<^verbatim>\<open>utils.js\<close> is not among the sources, so its functions are parameters:
  \<^verbatim>\<open>utils.sign\<close> gets the private key it is called with (\<open>None\<close> for
  \<^verbatim>\<open>undefined\<close>) and the output, and returns a signature or throws;
  \<^verbatim>\<open>utils.calcAddress\<close> maps a public key to an address. The key pairs that
  \<^verbatim>\<open>utils.generateKeypair()\<close> and \<^verbatim>\<open>keypair()\<close> produce are
  arguments of the functions that call them.
\<close>

type_synonym signer = "string option \<Rightarrow> utxo \<Rightarrow> error + string"

definition constructor :: "keypair \<Rightarrow> wallet" where
  "constructor k = \<lparr>coins = [], addresses = empty_obj, kp = k\<rparr>"

text \<open>\<^verbatim>\<open>this.coins.reduce((acc, { output }) => acc + output.amount, 0)\<close>\<close>

definition balance :: "wallet \<Rightarrow> jsnum" where
  "balance w = foldl (\<lambda>acc c. js_add acc (amount (output c))) (Fin 0) (coins w)"

text \<open>\<^verbatim>\<open>unshift\<close> puts the new coin at index 0.\<close>

definition addUTXO :: "wallet \<Rightarrow> utxo \<Rightarrow> string \<Rightarrow> int \<Rightarrow> (error + unit) \<times> wallet" where
  "addUTXO w u t i =
     (if get_prop (addresses w) (address u) = Undefined then (Inl UnknownAddress, w)
      else (Inr (), w\<lparr>coins := \<lparr>output = u, txID = t, outputIndex = i\<rparr> # coins w\<rparr>))"

text \<open>
  The object literal pushed on \<^verbatim>\<open>inputs\<close>: reading \<^verbatim>\<open>.public\<close> of
  \<^verbatim>\<open>undefined\<close> throws a TypeError, then \<^verbatim>\<open>utils.sign\<close> is called.
\<close>

definition make_input :: "signer \<Rightarrow> addrobj \<Rightarrow> coin \<Rightarrow> error + tx_input" where
  "make_input sign ab c =
     (case get_prop ab (address (output c)) of
        Undefined \<Rightarrow> Inl TypeError
      | v \<Rightarrow>
          (case sign (private_of v) (output c) of
             Inl e \<Rightarrow> Inl e
           | Inr s \<Rightarrow>
               Inr \<lparr>in_txID = txID c, in_outputIndex = outputIndex c,
                    pubKey = public_of v, sig = s\<rparr>))"

text \<open>
  The \<^verbatim>\<open>while\<close> loop of \<^verbatim>\<open>spendUTXOs\<close>. The oldest coin is the last
  element of the array; \<^verbatim>\<open>pop\<close> removes it before the input is built, so an
  error thrown while building the input leaves the coin removed. The two branches that
  \<^verbatim>\<open>break\<close> return at once; their update of \<^verbatim>\<open>collectAmount\<close> is
  never read again.
\<close>

function spend_loop ::
  "signer \<Rightarrow> jsnum \<Rightarrow> wallet \<Rightarrow> jsnum \<Rightarrow> jsnum \<Rightarrow> tx_input list
     \<Rightarrow> (error + tx_input list \<times> jsnum) \<times> wallet" where
  "spend_loop sign amt w collectAmount changeAmount inputs =
     (if coins w \<noteq> [] \<and> js_lt collectAmount amt then
        (let c = last (coins w);
             oldest = amount (output c);
             w' = w\<lparr>coins := butlast (coins w)\<rparr>
         in if js_gt oldest amt then
              (case make_input sign (addresses w') c of
                 Inl e \<Rightarrow> (Inl e, w')
               | Inr i \<Rightarrow> (Inr (inputs @ [i], js_add changeAmount (js_sub oldest amt)), w'))
            else if js_eq oldest amt then
              (case make_input sign (addresses w') c of
                 Inl e \<Rightarrow> (Inl e, w')
               | Inr i \<Rightarrow> (Inr (inputs @ [i], changeAmount), w'))
            else
              (case make_input sign (addresses w') c of
                 Inl e \<Rightarrow> (Inl e, w')
               | Inr i \<Rightarrow>
                   spend_loop sign amt w' (js_add collectAmount oldest) changeAmount
                     (inputs @ [i])))
      else (Inr (inputs, changeAmount), w))"
  by pat_completeness auto
termination
  by (relation "measure (\<lambda>(sign, amt, w, collectAmount, changeAmount, inputs). length (coins w))")
    auto

definition spendUTXOs ::
  "signer \<Rightarrow> wallet \<Rightarrow> jsnum \<Rightarrow> (error + tx_input list \<times> jsnum) \<times> wallet" where
  "spendUTXOs sign w amt =
     (if js_gt amt (balance w) then (Inl InsufficientFunds, w)
      else spend_loop sign amt w (Fin 0) (Fin 0) [])"

text \<open>\<^verbatim>\<open>makeAddress\<close>, given the key pair that \<^verbatim>\<open>keypair()\<close> returns.\<close>

definition makeAddress :: "(string \<Rightarrow> string) \<Rightarrow> keypair \<Rightarrow> wallet \<Rightarrow> string \<times> wallet" where
  "makeAddress calcAddress k w =
     (let addr = calcAddress (public k)
      in (addr, w\<lparr>addresses := set_prop (addresses w) addr k\<rparr>))"

definition hasKey :: "wallet \<Rightarrow> string \<Rightarrow> bool" where
  "hasKey w a = truthy (get_prop (addresses w) a)"

subsection \<open>Notions used to state the properties\<close>

text \<open>\<^verbatim>\<open>this.coins.pop()\<close>\<close>

definition pop :: "wallet \<Rightarrow> wallet" where
  "pop w = w\<lparr>coins := butlast (coins w)\<rparr>"

text \<open>The running total \<^verbatim>\<open>collectAmount\<close> after the amounts of the coins
  \<open>cs\<close> were added to \<open>col\<close> one after the other.\<close>

definition collect_from :: "jsnum \<Rightarrow> coin list \<Rightarrow> jsnum" where
  "collect_from col cs = foldl (\<lambda>acc c. js_add acc (amount (output c))) col cs"

text \<open>
  The exact sum of the amounts of some coins, as a real number. The additions of the
  wallet are exact on coins whose amounts are non-negative whole numbers with an exact
  sum of at most \<open>2^53\<close>.
\<close>

definition exact_total :: "coin list \<Rightarrow> real" where
  "exact_total cs = sum_list (map (\<lambda>c. val (amount (output c))) cs)"

fun whole :: "jsnum \<Rightarrow> bool" where
  "whole (Fin r) = (0 \<le> r \<and> r \<in> \<int>)"
| "whole x = False"

definition exact_range :: "coin list \<Rightarrow> bool" where
  "exact_range cs = (list_all (\<lambda>c. whole (amount (output c))) cs \<and> exact_total cs \<le> 2 ^ 53)"

text \<open>Rounding a natural number to 53 significant bits, ties to even.\<close>

definition round_nat :: "nat \<Rightarrow> nat" where
  "round_nat n = nat (rhe (of_nat n / of_nat (2 ^ excess n))) * 2 ^ excess n"

text \<open>The input of a coin can be built: the address lookup is not
  \<^verbatim>\<open>undefined\<close> and the signer does not throw.\<close>

definition can_unlock :: "signer \<Rightarrow> addrobj \<Rightarrow> coin \<Rightarrow> bool" where
  "can_unlock sign ab c = (case make_input sign ab c of Inl e \<Rightarrow> False | Inr i \<Rightarrow> True)"

definition unlockable :: "signer \<Rightarrow> wallet \<Rightarrow> bool" where
  "unlockable sign w = list_all (can_unlock sign (addresses w)) (coins w)"

text \<open>An address has an entry in the address book when \<^verbatim>\<open>makeAddress\<close> has
  stored a key pair under it.\<close>

definition registered :: "addrobj \<Rightarrow> string \<Rightarrow> bool" where
  "registered ab a = (if a = ''__proto__'' then proto ab \<noteq> None else own ab a \<noteq> None)"

text \<open>A name that a property read finds on the prototype chain of the address table
  when the table has no own property of that name.\<close>

definition inherited :: "addrobj \<Rightarrow> string \<Rightarrow> bool" where
  "inherited ab a =
     (a = ''__proto__'' \<or> a \<in> set object_prototype_names
      \<or> (proto ab \<noteq> None \<and> (a = ''public'' \<or> a = ''private'')))"

text \<open>The invariant of the data model: every held coin's address is registered.\<close>

definition wallet_inv :: "wallet \<Rightarrow> bool" where
  "wallet_inv w = list_all (\<lambda>c. registered (addresses w) (address (output c))) (coins w)"

text \<open>The coin that \<^verbatim>\<open>addUTXO\<close> stores for its three arguments.\<close>

fun mk_coin :: "utxo \<times> string \<times> int \<Rightarrow> coin" where
  "mk_coin (u, t, i) = \<lparr>output = u, txID = t, outputIndex = i\<rparr>"

text \<open>A caller that ingests outputs one after the other; the first throw ends it.\<close>

fun ingest_all :: "wallet \<Rightarrow> (utxo \<times> string \<times> int) list \<Rightarrow> (error + unit) \<times> wallet" where
  "ingest_all w [] = (Inr (), w)"
| "ingest_all w ((u, t, i) # rest) =
     (case addUTXO w u t i of
        (Inl e, w') \<Rightarrow> (Inl e, w')
      | (Inr x, w') \<Rightarrow> ingest_all w' rest)"

text \<open>What an input refers to, and what identifies a coin.\<close>

definition input_ref :: "tx_input \<Rightarrow> string \<times> int" where
  "input_ref i = (in_txID i, in_outputIndex i)"

definition coin_ref :: "coin \<Rightarrow> string \<times> int" where
  "coin_ref c = (txID c, outputIndex c)"

text \<open>
  What holds after a run of the loop that returns, started with running total \<open>col\<close>
  and change \<open>chg\<close>: \<open>consumed\<close> lists the removed coins, oldest first, and
  \<open>new\<close> the inputs appended for them. Every removed coin but the last went through
  the last branch of the loop; before each removal the running total was below the
  target.
\<close>

definition loop_post ::
  "signer \<Rightarrow> jsnum \<Rightarrow> wallet \<Rightarrow> jsnum \<Rightarrow> jsnum \<Rightarrow> jsnum \<Rightarrow> wallet \<Rightarrow> coin list
     \<Rightarrow> tx_input list \<Rightarrow> bool" where
  "loop_post sign amt w col chg chg' w' consumed new =
     (coins w = coins w' @ rev consumed \<and> addresses w' = addresses w \<and> kp w' = kp w
      \<and> map (make_input sign (addresses w)) consumed = map Inr new
      \<and> (\<forall>c \<in> set (butlast consumed).
            \<not> js_gt (amount (output c)) amt \<and> \<not> js_eq (amount (output c)) amt)
      \<and> (\<forall>j < length consumed. js_lt (collect_from col (take j consumed)) amt)
      \<and> (coins w' = [] \<or> \<not> js_lt (collect_from col consumed) amt
           \<or> (consumed \<noteq> [] \<and> (js_gt (amount (output (last consumed))) amt
                                 \<or> js_eq (amount (output (last consumed))) amt)))
      \<and> chg' = (if consumed \<noteq> [] \<and> js_gt (amount (output (last consumed))) amt
                then js_add chg (js_sub (amount (output (last consumed))) amt) else chg))"

subsection \<open>Concrete scenarios\<close>

text \<open>
  A key pair, an address function and a signer to run the wallet on: the signer throws
  when it is handed \<^verbatim>\<open>undefined\<close> as the key. \<open>minted\<close> is a new wallet after
  one \<^verbatim>\<open>makeAddress\<close>, which gives the address \<open>''addr-pub1''\<close>;
  \<open>funded us\<close> is that wallet after ingesting the outputs \<open>us\<close> in this order.
\<close>

definition sample_kp :: keypair where
  "sample_kp = \<lparr>public = ''pub1'', private = ''priv1''\<rparr>"

definition sample_calc :: "string \<Rightarrow> string" where
  "sample_calc p = ''addr-'' @ p"

definition sample_sign :: signer where
  "sample_sign k u = (case k of None \<Rightarrow> Inl ExternalFailure | Some s \<Rightarrow> Inr (''sig-'' @ s))"

definition minted :: wallet where
  "minted = snd (makeAddress sample_calc sample_kp (constructor sample_kp))"

definition out_of :: "real \<Rightarrow> int \<Rightarrow> utxo \<times> string \<times> int" where
  "out_of a i = (\<lparr>amount = Fin a, address = ''addr-pub1''\<rparr>, ''tx1'', i)"

definition funded :: "(utxo \<times> string \<times> int) list \<Rightarrow> wallet" where
  "funded us = snd (ingest_all minted us)"

definition input_for :: "int \<Rightarrow> tx_input" where
  "input_for i =
     \<lparr>in_txID = ''tx1'', in_outputIndex = i, pubKey = Some ''pub1'', sig = ''sig-priv1''\<rparr>"

definition stray_output :: utxo where
  "stray_output = \<lparr>amount = Fin 5, address = ''toString''\<rparr>"

section \<open>Properties\<close>

lemmas scenario_defs =
  sample_kp_def sample_calc_def sample_sign_def minted_def out_of_def funded_def input_for_def
  stray_output_def makeAddress_def constructor_def empty_obj_def set_prop_def get_prop_def
  object_prototype_names_def addUTXO_def make_input_def Let_def

subsection \<open>Rounding\<close>

declare excess.simps [simp del]

lemma excess_small: "n < 2 ^ 53 \<Longrightarrow> excess n = 0"
  by (subst excess.simps) simp

lemma excess_big: "2 ^ 53 \<le> n \<Longrightarrow> excess n = Suc (excess (n div 2))"
  by (subst excess.simps) simp

lemma excess_double: "2 ^ 53 \<le> n \<Longrightarrow> excess (2 * n) = Suc (excess n)"
  by (subst excess_big) simp_all

lemma excess_shift: "2 ^ 53 \<le> n \<Longrightarrow> excess (n * 2 ^ c) = excess n + c"
proof (induction c)
  case 0
  then show ?case by simp
next
  case (Suc c)
  have "(2::nat) ^ 53 \<le> n * 2 ^ c"
    using Suc.prems by (metis mult.right_neutral mult_le_mono one_le_numeral one_le_power order_refl order_trans)
  then have "excess (2 * (n * 2 ^ c)) = Suc (excess (n * 2 ^ c))" by (rule excess_double)
  with Suc show ?case by (simp add: mult.commute mult.left_commute)
qed

lemma excess_mult_le: "n < 2 ^ 53 \<Longrightarrow> excess (n * 2 ^ c) \<le> c"
proof (induction c)
  case 0
  then show ?case by (simp add: excess_small)
next
  case (Suc c)
  show ?case
  proof (cases "n * 2 ^ Suc c < 2 ^ 53")
    case True
    then show ?thesis by (simp add: excess_small)
  next
    case False
    then have "excess (n * 2 ^ Suc c) = Suc (excess ((n * 2 ^ Suc c) div 2))"
      by (intro excess_big) simp
    also have "(n * 2 ^ Suc c) div 2 = n * 2 ^ c" by simp
    finally show ?thesis using Suc by simp
  qed
qed

lemma rhe_of_int: "rhe (of_int j) = j"
  by (simp add: rhe_def)

lemma rhe_nonneg: "0 \<le> x \<Longrightarrow> 0 \<le> rhe x"
  by (auto simp: rhe_def Let_def)

lemma round_double_nonneg: "0 \<le> r \<Longrightarrow> 0 \<le> round_double r"
  by (auto simp: round_double_def Let_def sgn_if intro!: divide_nonneg_nonneg mult_nonneg_nonneg rhe_nonneg)


lemma dvd_excess: "n < 2 ^ 53 \<Longrightarrow> 2 ^ excess (n * 2 ^ c) dvd n * (2::nat) ^ c"
  using excess_mult_le[of n c] by (simp add: le_imp_power_dvd dvd_mult)

lemma round_double_scaled:
  assumes "0 \<le> r" and "r * 2 ^ 1074 = of_nat m"
  shows "round_double r = of_nat (nat (rhe (of_nat m / of_nat (2 ^ excess m))) * 2 ^ excess m) / 2 ^ 1074"
proof (cases "r = 0")
  case True
  with assms have "m = 0" by simp
  with True show ?thesis by (simp add: round_double_def excess_small rhe_def)
next
  case False
  with assms have pos: "0 < r" by simp
  have s: "\<bar>r\<bar> * 2 ^ 1074 = of_nat m" using assms by simp
  have fl: "nat \<lfloor>(of_nat m :: real)\<rfloor> = m" by simp
  have nn: "0 \<le> rhe (of_nat m / of_nat (2 ^ excess m))"
    by (intro rhe_nonneg) simp
  show ?thesis
    unfolding round_double_def Let_def s fl using pos nn
    by (simp add: sgn_if)
qed

lemma round_nat_exact: "2 ^ excess m dvd m \<Longrightarrow> round_nat m = m"
proof -
  assume d: "2 ^ excess m dvd m"
  then obtain q where q: "m = 2 ^ excess m * q" by (auto simp: dvd_def)
  have "(of_nat m :: real) / of_nat (2 ^ excess m) = of_nat q"
    by (subst q) simp
  then have "rhe (of_nat m / of_nat (2 ^ excess m)) = int q"
    using rhe_of_int[of "int q"] by simp
  then have "round_nat m = q * 2 ^ excess m" by (simp add: round_nat_def)
  also have "\<dots> = m" by (subst (2) q) (simp add: mult.commute)
  finally show ?thesis .
qed

lemma round_double_int_exact:
  assumes "r \<in> \<int>" and "\<bar>r\<bar> \<le> 2 ^ 53"
  shows "round_double r = r"
proof -
  have sym: "round_double (- x) = - round_double x" for x
    by (simp add: round_double_def Let_def)
  have main: "round_double x = x" if x: "x \<in> \<int>" "0 \<le> x" "x \<le> 2 ^ 53" for x
  proof -
    from x obtain n where n: "x = of_nat n" by (metis Ints_cases of_int_0_le_iff of_nat_nat of_int_of_nat_eq)
    with x(3) have le: "n \<le> 2 ^ 53"
      by (metis of_nat_le_iff of_nat_numeral of_nat_power)
    have sc: "x * 2 ^ 1074 = of_nat (n * 2 ^ 1074)" using n by simp
    have dv: "2 ^ excess (n * 2 ^ 1074) dvd n * (2::nat) ^ 1074"
    proof (cases "n < 2 ^ 53")
      case True
      then show ?thesis by (rule dvd_excess)
    next
      case False
      with le have e: "n = 2 ^ 53" by simp
      have "n * (2::nat) ^ 1074 = 2 ^ 52 * 2 ^ 1075" unfolding e by simp
      moreover have "2 ^ excess (2 ^ 52 * 2 ^ 1075) dvd 2 ^ 52 * (2::nat) ^ 1075"
        by (rule dvd_excess) simp
      ultimately show ?thesis by simp
    qed
    have "round_double x = of_nat (round_nat (n * 2 ^ 1074)) / 2 ^ 1074"
      using round_double_scaled[OF x(2) sc] by (simp add: round_nat_def)
    also have "\<dots> = of_nat (n * 2 ^ 1074) / 2 ^ 1074"
      using round_nat_exact[OF dv] by simp
    also have "\<dots> = x" using n by simp
    finally show ?thesis .
  qed
  show ?thesis
  proof (cases "0 \<le> r")
    case True
    with assms main show ?thesis by simp
  next
    case False
    then have "round_double (- r) = - r" using assms by (intro main) auto
    then show ?thesis using sym[of r] by simp
  qed
qed

lemma to_double_int_exact: "r \<in> \<int> \<Longrightarrow> \<bar>r\<bar> \<le> 2 ^ 53 \<Longrightarrow> to_double r = Fin r"
proof -
  assume a: "r \<in> \<int>" "\<bar>r\<bar> \<le> 2 ^ 53"
  have "(2::real) ^ 53 < 2 ^ 1024" by simp
  with a(2) have "r < 2 ^ 1024" "- (2 ^ 1024) < r" by linarith+
  then show ?thesis
    using round_double_int_exact[OF a] by (auto simp: to_double_def Let_def)
qed

lemma js_add_exact:
  "x \<in> \<int> \<Longrightarrow> y \<in> \<int> \<Longrightarrow> \<bar>x + y\<bar> \<le> 2 ^ 53 \<Longrightarrow> js_add (Fin x) (Fin y) = Fin (x + y)"
  by (simp add: to_double_int_exact)

lemma js_sub_exact:
  "x \<in> \<int> \<Longrightarrow> y \<in> \<int> \<Longrightarrow> \<bar>x - y\<bar> \<le> 2 ^ 53 \<Longrightarrow> js_sub (Fin x) (Fin y) = Fin (x - y)"
  by (auto simp: js_sub_def to_double_int_exact)

text \<open>A whole number is rounded as a whole number.\<close>
lemma round_double_of_nat:
  "round_double (of_nat n) = of_nat (round_nat n)"
proof (cases "n < 2 ^ 53")
  case True
  then have "round_nat n = n" by (intro round_nat_exact) (simp add: excess_small)
  moreover have "(of_nat n :: real) \<le> of_nat (2 ^ 53)"
    using True by (simp only: of_nat_le_iff)
  then have "round_double (of_nat n) = of_nat n"
    by (intro round_double_int_exact) simp_all
  ultimately show ?thesis by simp
next
  case False
  then have big: "2 ^ 53 \<le> n" by simp
  have sc: "(of_nat n :: real) * 2 ^ 1074 = of_nat (n * 2 ^ 1074)" by simp
  have e: "excess (n * 2 ^ 1074) = excess n + 1074" using big by (rule excess_shift)
  have "(of_nat (n * 2 ^ 1074) :: real) / of_nat (2 ^ excess (n * 2 ^ 1074))
          = of_nat n / of_nat (2 ^ excess n)"
    unfolding e by (simp add: power_add)
  then have "round_double (of_nat n)
      = of_nat (nat (rhe (of_nat n / of_nat (2 ^ excess n))) * 2 ^ (excess n + 1074)) / 2 ^ 1074"
    using round_double_scaled[OF _ sc] e by simp
  also have "\<dots> = of_nat (round_nat n)"
    by (simp add: round_nat_def power_add)
  finally show ?thesis .
qed

lemma excess_div_less: "n div 2 ^ excess n < 2 ^ 53"
proof (induction n rule: excess.induct)
  case (1 n)
  show ?case
  proof (cases "n < 2 ^ 53")
    case True
    then show ?thesis by (simp add: excess_small)
  next
    case False
    then have "excess n = Suc (excess (n div 2))" by (intro excess_big) simp
    moreover have "n div 2 ^ Suc (excess (n div 2)) = (n div 2) div 2 ^ excess (n div 2)"
      by (simp add: div_mult2_eq)
    ultimately show ?thesis using "1.IH"[OF False] by simp
  qed
qed

lemma rhe_le: "rhe x \<le> \<lfloor>x\<rfloor> + 1"
  by (simp add: rhe_def Let_def)

lemma round_nat_dvd:
  assumes "m \<le> 2 ^ 53"
  shows "2 ^ excess (m * 2 ^ e) dvd m * (2::nat) ^ e"
proof (cases "m < 2 ^ 53")
  case True
  then show ?thesis by (rule dvd_excess)
next
  case False
  with assms have m: "m = 2 ^ 53" by simp
  have "m * (2::nat) ^ e = 2 ^ 52 * 2 ^ Suc e" unfolding m by simp
  moreover have "2 ^ excess (2 ^ 52 * 2 ^ Suc e) dvd 2 ^ 52 * (2::nat) ^ Suc e"
    by (rule dvd_excess) simp
  ultimately show ?thesis by simp
qed

lemma round_double_minus: "round_double (- x) = - round_double x"
  by (simp add: round_double_def Let_def)

lemma round_double_idem_pos:
  assumes "0 \<le> r"
  shows "round_double (round_double r) = round_double r"
proof -
  define F where "F = nat \<lfloor>r * 2 ^ 1074\<rfloor>"
  define e where "e = excess F"
  define m where "m = nat (rhe (r * 2 ^ 1074 / of_nat (2 ^ e)))"
  have s0: "0 \<le> r * 2 ^ 1074" using assms by simp
  have mnn: "0 \<le> rhe (r * 2 ^ 1074 / of_nat (2 ^ e))"
    using s0 by (intro rhe_nonneg) simp
  have d: "round_double r = of_nat (m * 2 ^ e) / 2 ^ 1074"
  proof (cases "r = 0")
    case True
    then show ?thesis by (simp add: round_double_def m_def rhe_def)
  next
    case False
    with assms have "0 < r" by simp
    then show ?thesis
      using mnn unfolding round_double_def Let_def m_def e_def F_def
      by (simp add: sgn_if)
  qed
  have fl: "\<lfloor>r * 2 ^ 1074 / of_nat (2 ^ e)\<rfloor> = int (F div 2 ^ e)"
  proof -
    have "\<lfloor>r * 2 ^ 1074 / real_of_int (int (2 ^ e))\<rfloor> = \<lfloor>r * 2 ^ 1074\<rfloor> div int (2 ^ e)"
      by (rule floor_divide_real_eq_div) simp
    moreover have "\<lfloor>r * 2 ^ 1074\<rfloor> = int F" using s0 by (simp add: F_def)
    ultimately show ?thesis by (simp add: zdiv_int)
  qed
  have "F div 2 ^ e < 2 ^ 53" unfolding e_def by (rule excess_div_less)
  then have "int (F div 2 ^ e) + 1 \<le> 2 ^ 53"
    by (metis add.commute int_ops(2) of_nat_Suc of_nat_le_iff of_nat_numeral of_nat_power Suc_leI plus_1_eq_Suc int_plus)
  with rhe_le[of "r * 2 ^ 1074 / of_nat (2 ^ e)"] fl
  have "rhe (r * 2 ^ 1074 / of_nat (2 ^ e)) \<le> 2 ^ 53" by linarith
  then have mle: "m \<le> 2 ^ 53" unfolding m_def using mnn
    by (metis nat_le_iff of_nat_numeral of_nat_power)
  have dn: "0 \<le> round_double r" using assms by (rule round_double_nonneg)
  have sc: "round_double r * 2 ^ 1074 = of_nat (m * 2 ^ e)" unfolding d by simp
  have a: "round_double (round_double r) = of_nat (round_nat (m * 2 ^ e)) / 2 ^ 1074"
    using round_double_scaled[OF dn sc] by (simp add: round_nat_def)
  have b: "round_nat (m * 2 ^ e) = m * 2 ^ e"
    by (intro round_nat_exact round_nat_dvd mle)
  from a have "round_double (round_double r) = of_nat (m * 2 ^ e) / 2 ^ 1074"
    by (simp only: b)
  also have "\<dots> = round_double r" by (simp only: d)
  finally show ?thesis .
qed

lemma round_double_idem: "round_double (round_double r) = round_double r"
proof (cases "0 \<le> r")
  case True
  then show ?thesis by (rule round_double_idem_pos)
next
  case False
  then have "round_double (round_double (- r)) = round_double (- r)"
    by (intro round_double_idem_pos) simp
  then show ?thesis by (simp add: round_double_minus)
qed

lemma js_add_zero_to_double: "0 < r \<Longrightarrow> js_add (Fin 0) (to_double r) = to_double r"
proof -
  assume r: "0 < r"
  have nn: "0 \<le> round_double r" using r by (intro round_double_nonneg) simp
  have neg: "\<not> round_double r \<le> - (2 ^ 1024)"
  proof
    assume "round_double r \<le> - (2 ^ 1024)"
    moreover have "- ((2::real) ^ 1024) < 0" by simp
    ultimately show False using nn by linarith
  qed
  show ?thesis
  proof (cases "2 ^ 1024 \<le> round_double r")
    case True
    then show ?thesis by (simp add: to_double_def Let_def)
  next
    case False
    show ?thesis
    proof (cases "round_double r = 0")
      case True
      then show ?thesis using r False by (simp add: to_double_def Let_def)
    next
      case nz: False
      have t: "to_double r = Fin (round_double r)"
        using False neg nz by (simp add: to_double_def Let_def)
      have "to_double (round_double r) = Fin (round_double r)"
        using False neg nz round_double_idem[of r] by (simp add: to_double_def Let_def)
      then show ?thesis using t nz by simp
    qed
  qed
qed

lemma js_sub_pos: "js_gt x y \<Longrightarrow> js_add (Fin 0) (js_sub x y) = js_sub x y"
proof -
  assume g: "js_gt x y"
  show ?thesis
  proof (cases "x = PosInf \<or> y = NegInf")
    case True
    then show ?thesis using g by (cases x; cases y) (auto simp: js_sub_def js_gt_def)
  next
    case False
    with g have v: "val y < val x" and fx: "x = NegZero \<or> x = Fin (val x)"
      and fy: "y = NegZero \<or> y = Fin (val y)"
      by (cases x; cases y; simp add: js_gt_def)+
    then have pos: "0 < val x - val y" by simp
    have "js_sub x y = to_double (val x - val y)"
      using fx fy v by (cases x; cases y) (auto simp: js_sub_def)
    then show ?thesis using js_add_zero_to_double[OF pos] by simp
  qed
qed

lemma to_double_nonneg: "0 \<le> r \<Longrightarrow> nonneg (to_double r)"
  using round_double_nonneg[of r] by (auto simp: to_double_def Let_def)

lemma js_add_nonneg: "nonneg x \<Longrightarrow> nonneg y \<Longrightarrow> nonneg (js_add x y)"
  by (cases x; cases y) (auto simp: to_double_nonneg)

lemma js_lt_iff: "x \<noteq> NaN \<Longrightarrow> y \<noteq> NaN \<Longrightarrow> js_lt x y \<longleftrightarrow> \<not> js_gt x y \<and> \<not> js_eq x y"
  by (cases x; cases y) (auto simp: js_gt_def)

lemma js_lt_not_NaN: "js_lt x y \<Longrightarrow> x \<noteq> NaN \<and> y \<noteq> NaN"
  by (cases x; cases y) auto

text \<open>Evaluating the rounding of a whole number given by a numeral.\<close>

lemma round_double_numeral: "round_double (numeral k) = of_nat (round_nat (numeral k))"
  using round_double_of_nat[of "numeral k"] by simp

lemmas round_eval = to_double_def round_double_numeral round_nat_def excess_big excess_small
  rhe_def Let_def js_gt_def js_sub_def

subsection \<open>One iteration of the loop\<close>

declare spend_loop.simps [simp del]

lemma spend_loop_stop:
  "coins w = [] \<or> \<not> js_lt col amt \<Longrightarrow> spend_loop sign amt w col chg ins = (Inr (ins, chg), w)"
  by (subst spend_loop.simps) auto

lemma spend_loop_throw:
  "coins w \<noteq> [] \<Longrightarrow> js_lt col amt \<Longrightarrow>
   make_input sign (addresses w) (last (coins w)) = Inl e \<Longrightarrow>
   spend_loop sign amt w col chg ins = (Inl e, pop w)"
  by (subst spend_loop.simps) (simp add: pop_def Let_def)

lemma spend_loop_greater:
  "coins w \<noteq> [] \<Longrightarrow> js_lt col amt \<Longrightarrow>
   make_input sign (addresses w) (last (coins w)) = Inr i \<Longrightarrow>
   js_gt (amount (output (last (coins w)))) amt \<Longrightarrow>
   spend_loop sign amt w col chg ins =
     (Inr (ins @ [i], js_add chg (js_sub (amount (output (last (coins w)))) amt)), pop w)"
  by (subst spend_loop.simps) (simp add: pop_def Let_def)

lemma spend_loop_equal:
  "coins w \<noteq> [] \<Longrightarrow> js_lt col amt \<Longrightarrow>
   make_input sign (addresses w) (last (coins w)) = Inr i \<Longrightarrow>
   \<not> js_gt (amount (output (last (coins w)))) amt \<Longrightarrow>
   js_eq (amount (output (last (coins w)))) amt \<Longrightarrow>
   spend_loop sign amt w col chg ins = (Inr (ins @ [i], chg), pop w)"
  by (subst spend_loop.simps) (simp add: pop_def Let_def)

lemma spend_loop_less:
  "coins w \<noteq> [] \<Longrightarrow> js_lt col amt \<Longrightarrow>
   make_input sign (addresses w) (last (coins w)) = Inr i \<Longrightarrow>
   \<not> js_gt (amount (output (last (coins w)))) amt \<Longrightarrow>
   \<not> js_eq (amount (output (last (coins w)))) amt \<Longrightarrow>
   spend_loop sign amt w col chg ins =
     spend_loop sign amt (pop w) (js_add col (amount (output (last (coins w))))) chg (ins @ [i])"
  by (subst spend_loop.simps) (simp add: pop_def Let_def)

lemma pop_coins: "coins w \<noteq> [] \<Longrightarrow> coins w = coins (pop w) @ [last (coins w)]"
  by (simp add: pop_def)

subsection \<open>Balance\<close>

lemma balance_collect: "balance w = collect_from (Fin 0) (coins w)"
  by (simp add: balance_def collect_from_def)

lemma collect_from_Cons:
  "collect_from col (c # cs) = collect_from (js_add col (amount (output c))) cs"
  by (simp add: collect_from_def)

lemma collect_from_nonneg:
  "nonneg col \<Longrightarrow> list_all (\<lambda>c. nonneg (amount (output c))) cs \<Longrightarrow> nonneg (collect_from col cs)"
  by (induction cs arbitrary: col) (simp_all add: collect_from_def js_add_nonneg)

text \<open>On whole amounts with a total of at most \<open>2^53\<close> every addition is exact.\<close>

lemma collect_from_exact:
  assumes "0 \<le> a" and "a \<in> \<int>" and "list_all (\<lambda>c. whole (amount (output c))) cs"
    and "a + exact_total cs \<le> 2 ^ 53"
  shows "collect_from (Fin a) cs = Fin (a + exact_total cs)"
  using assms
proof (induction cs arbitrary: a)
  case Nil
  then show ?case by (simp add: collect_from_def exact_total_def)
next
  case (Cons c cs)
  from Cons.prems(3) obtain r where r: "amount (output c) = Fin r" "0 \<le> r" "r \<in> \<int>"
    by (cases "amount (output c)") auto
  from Cons.prems(3) have rest: "list_all (\<lambda>c. whole (amount (output c))) cs" by simp
  have nn: "0 \<le> exact_total cs"
    using rest unfolding exact_total_def
  proof (induction cs)
    case Nil
    then show ?case by simp
  next
    case (Cons d ds)
    then show ?case by (cases "amount (output d)") auto
  qed
  have tot: "exact_total (c # cs) = r + exact_total cs"
    using r by (simp add: exact_total_def)
  have le: "a + r \<le> 2 ^ 53" using Cons.prems(4) tot nn by linarith
  have "\<bar>a + r\<bar> \<le> 2 ^ 53" using le Cons.prems(1) r(2) by simp
  then have step: "js_add (Fin a) (Fin r) = Fin (a + r)"
    using Cons.prems(2) r(3) by (intro js_add_exact)
  have "collect_from (Fin (a + r)) cs = Fin (a + r + exact_total cs)"
    using Cons.prems r rest tot by (intro Cons.IH) (auto simp: add.assoc)
  then show ?case
    using step r(1) tot by (simp add: collect_from_Cons add.assoc)
qed

lemma balance_exact: "exact_range (coins w) \<Longrightarrow> balance w = Fin (exact_total (coins w))"
  using collect_from_exact[of 0 "coins w"] by (simp add: balance_collect exact_range_def)

lemma exact_total_append: "exact_total (xs @ ys) = exact_total xs + exact_total ys"
  by (simp add: exact_total_def)

lemma exact_total_rev: "exact_total (rev xs) = exact_total xs"
  by (simp add: exact_total_def rev_map[symmetric])

lemma exact_total_whole:
  "list_all (\<lambda>c. whole (amount (output c))) cs \<Longrightarrow> 0 \<le> exact_total cs \<and> exact_total cs \<in> \<int>"
proof (induction cs)
  case Nil
  then show ?case by (simp add: exact_total_def)
next
  case (Cons c cs)
  then show ?case by (cases "amount (output c)") (auto simp: exact_total_def)
qed

lemma exact_range_rev: "exact_range (rev cs) = exact_range cs"
  by (simp add: exact_range_def exact_total_rev)

subsection \<open>Ingestion\<close>

lemma ingest_all_coins:
  "ingest_all w us = (Inr (), w') \<Longrightarrow>
   coins w' = rev (map mk_coin us) @ coins w \<and> addresses w' = addresses w \<and> kp w' = kp w"
proof (induction us arbitrary: w)
  case Nil
  then show ?case by simp
next
  case (Cons x us)
  obtain u t i where x: "x = (u, t, i)" by (cases x) auto
  from Cons.prems x have ok: "get_prop (addresses w) (address u) \<noteq> Undefined"
    by (auto simp: addUTXO_def split: if_splits)
  let ?w1 = "w\<lparr>coins := mk_coin (u, t, i) # coins w\<rparr>"
  from Cons.prems x ok have "ingest_all ?w1 us = (Inr (), w')"
    by (simp add: addUTXO_def)
  from Cons.IH[OF this] x show ?case by simp
qed

lemma exact_total_mk_coin:
  "exact_total (map mk_coin us) = sum_list (map (\<lambda>x. val (amount (fst x))) us)"
  by (induction us) (auto simp: exact_total_def)

subsection \<open>Spending: the loop as a whole\<close>

lemma loop_post_Nil:
  "coins w = [] \<or> \<not> js_lt col amt \<Longrightarrow> loop_post sign amt w col chg chg w [] []"
  by (auto simp: loop_post_def collect_from_def)

lemma loop_post_break:
  assumes "coins w \<noteq> []" "js_lt col amt"
    and "make_input sign (addresses w) (last (coins w)) = Inr i"
    and "js_gt (amount (output (last (coins w)))) amt
         \<or> js_eq (amount (output (last (coins w)))) amt"
  shows "loop_post sign amt w col chg
           (if js_gt (amount (output (last (coins w)))) amt
            then js_add chg (js_sub (amount (output (last (coins w)))) amt) else chg)
           (pop w) [last (coins w)] [i]"
  using assms by (simp add: loop_post_def collect_from_def pop_def)

lemma loop_post_step:
  assumes ne: "coins w \<noteq> []" and lt: "js_lt col amt"
    and mi: "make_input sign (addresses w) (last (coins w)) = Inr i"
    and ngt: "\<not> js_gt (amount (output (last (coins w)))) amt"
    and neq: "\<not> js_eq (amount (output (last (coins w)))) amt"
    and rest: "loop_post sign amt (pop w) (js_add col (amount (output (last (coins w)))))
                 chg chg' w' cs new"
  shows "loop_post sign amt w col chg chg' w' (last (coins w) # cs) (i # new)"
proof -
  let ?c = "last (coins w)"
  let ?col = "js_add col (amount (output ?c))"
  from rest have a: "coins (pop w) = coins w' @ rev cs" "addresses w' = addresses w"
    "kp w' = kp w" "map (make_input sign (addresses w)) cs = map Inr new"
    by (simp_all add: loop_post_def pop_def)
  from rest have c: "\<forall>c \<in> set (butlast cs).
        \<not> js_gt (amount (output c)) amt \<and> \<not> js_eq (amount (output c)) amt"
    "\<forall>j < length cs. js_lt (collect_from ?col (take j cs)) amt"
    "coins w' = [] \<or> \<not> js_lt (collect_from ?col cs) amt
           \<or> (cs \<noteq> [] \<and> (js_gt (amount (output (last cs))) amt
                           \<or> js_eq (amount (output (last cs))) amt))"
    "chg' = (if cs \<noteq> [] \<and> js_gt (amount (output (last cs))) amt
             then js_add chg (js_sub (amount (output (last cs))) amt) else chg)"
    by (simp_all add: loop_post_def)
  have 1: "coins w = coins w' @ rev (?c # cs)"
    using pop_coins[OF ne] a(1) by simp
  have 2: "\<forall>c \<in> set (butlast (?c # cs)).
        \<not> js_gt (amount (output c)) amt \<and> \<not> js_eq (amount (output c)) amt"
    using c(1) ngt neq by simp
  have 3: "\<forall>j < length (?c # cs). js_lt (collect_from col (take j (?c # cs))) amt"
  proof (intro allI impI)
    fix j assume "j < length (?c # cs)"
    then show "js_lt (collect_from col (take j (?c # cs))) amt"
      using c(2) lt by (cases j) (auto simp: collect_from_Cons, simp add: collect_from_def)
  qed
  have 4: "coins w' = [] \<or> \<not> js_lt (collect_from col (?c # cs)) amt
           \<or> (?c # cs \<noteq> [] \<and> (js_gt (amount (output (last (?c # cs)))) amt
                                \<or> js_eq (amount (output (last (?c # cs)))) amt))"
    using c(3) by (auto simp: collect_from_Cons)
  have 5: "chg' = (if ?c # cs \<noteq> [] \<and> js_gt (amount (output (last (?c # cs)))) amt
             then js_add chg (js_sub (amount (output (last (?c # cs)))) amt) else chg)"
    using c(4) ngt by auto
  have 6: "map (make_input sign (addresses w)) (?c # cs) = map Inr (i # new)"
    using a(4) mi by simp
  show ?thesis
    unfolding loop_post_def using 1 2 3 4 5 6 a(2,3) by blast
qed

lemma spend_loop_post:
  "spend_loop sign amt w col chg ins = (Inr (ins', chg'), w') \<Longrightarrow>
   \<exists>consumed new. ins' = ins @ new \<and> loop_post sign amt w col chg chg' w' consumed new"
proof (induction sign amt w col chg ins rule: spend_loop.induct)
  case (1 sign amt w col chg ins)
  show ?case
  proof (cases "coins w \<noteq> [] \<and> js_lt col amt")
    case False
    then have stop: "coins w = [] \<or> \<not> js_lt col amt" by auto
    with "1.prems" have "ins' = ins" "chg' = chg" "w' = w"
      by (simp_all add: spend_loop_stop)
    then show ?thesis
      using loop_post_Nil[OF stop, of sign chg] by auto
  next
    case True
    let ?c = "last (coins w)"
    let ?a = "amount (output ?c)"
    from True have ne: "coins w \<noteq> []" and lt: "js_lt col amt" by simp_all
    obtain i where mi: "make_input sign (addresses w) ?c = Inr i"
      using "1.prems" spend_loop_throw[OF ne lt, of sign]
      by (cases "make_input sign (addresses w) ?c") auto
    show ?thesis
    proof (cases "js_gt ?a amt \<or> js_eq ?a amt")
      case brk: True
      then have "spend_loop sign amt w col chg ins =
         (Inr (ins @ [i], if js_gt ?a amt then js_add chg (js_sub ?a amt) else chg), pop w)"
        using spend_loop_greater[OF ne lt mi] spend_loop_equal[OF ne lt mi]
        by (cases "js_gt ?a amt") auto
      with "1.prems" have "ins' = ins @ [i]" "w' = pop w"
        "chg' = (if js_gt ?a amt then js_add chg (js_sub ?a amt) else chg)"
        by simp_all
      then show ?thesis
        using loop_post_break[OF ne lt mi brk, of chg] by blast
    next
      case False
      then have ngt: "\<not> js_gt ?a amt" and neq: "\<not> js_eq ?a amt" by simp_all
      have run: "spend_loop sign amt (pop w) (js_add col ?a) chg (ins @ [i])
                   = (Inr (ins', chg'), w')"
        using spend_loop_less[OF ne lt mi ngt neq] "1.prems" by simp
      have mi': "make_input sign (addresses (pop w)) ?c = Inr i"
        using mi by (simp add: pop_def)
      have "\<exists>consumed new. ins' = (ins @ [i]) @ new \<and>
              loop_post sign amt (pop w) (js_add col ?a) chg chg' w' consumed new"
        using "1.IH"[OF True refl refl _ _ _ _, of "pop w" i] ngt neq mi' run
        by (simp add: pop_def)
      then obtain cs new where "ins' = ins @ i # new"
        "loop_post sign amt (pop w) (js_add col ?a) chg chg' w' cs new"
        by auto
      then show ?thesis
        using loop_post_step[OF ne lt mi ngt neq] by blast
    qed
  qed
qed

text \<open>When the input of every held coin can be built, the loop returns.\<close>

lemma unlockable_pop: "unlockable sign w \<Longrightarrow> unlockable sign (pop w)"
  by (auto simp: unlockable_def pop_def list_all_iff dest: in_set_butlastD)

lemma unlockable_last:
  assumes "unlockable sign w" and "coins w \<noteq> []"
  shows "\<exists>i. make_input sign (addresses w) (last (coins w)) = Inr i"
proof -
  from assms have "can_unlock sign (addresses w) (last (coins w))"
    by (simp add: unlockable_def list_all_iff)
  then show ?thesis
    by (cases "make_input sign (addresses w) (last (coins w))") (simp_all add: can_unlock_def)
qed

lemma spend_loop_returns:
  "unlockable sign w \<Longrightarrow> \<exists>r w'. spend_loop sign amt w col chg ins = (Inr r, w')"
proof (induction sign amt w col chg ins rule: spend_loop.induct)
  case (1 sign amt w col chg ins)
  show ?case
  proof (cases "coins w \<noteq> [] \<and> js_lt col amt")
    case False
    then have "coins w = [] \<or> \<not> js_lt col amt" by auto
    then show ?thesis by (simp add: spend_loop_stop)
  next
    case True
    let ?c = "last (coins w)"
    let ?a = "amount (output ?c)"
    from True have ne: "coins w \<noteq> []" and lt: "js_lt col amt" by simp_all
    obtain i where mi: "make_input sign (addresses w) ?c = Inr i"
      using unlockable_last[OF "1.prems" ne] by blast
    consider (gt) "js_gt ?a amt" | (eq) "\<not> js_gt ?a amt" "js_eq ?a amt"
      | (less) "\<not> js_gt ?a amt" "\<not> js_eq ?a amt" by blast
    then show ?thesis
    proof cases
      case gt
      then show ?thesis using spend_loop_greater[OF ne lt mi] by simp
    next
      case eq
      then show ?thesis using spend_loop_equal[OF ne lt mi] by simp
    next
      case less
      have mi': "make_input sign (addresses (pop w)) ?c = Inr i"
        using mi by (simp add: pop_def)
      have "\<exists>r w'. spend_loop sign amt (pop w) (js_add col ?a) chg (ins @ [i]) = (Inr r, w')"
        using "1.IH"[OF True refl refl _ _ _ _, of "pop w" i] less mi'
          unlockable_pop[OF "1.prems"]
        by (simp add: pop_def)
      then show ?thesis using spend_loop_less[OF ne lt mi less] by simp
    qed
  qed
qed

text \<open>An input carries the transaction ID and the output index of its coin.\<close>

lemma make_input_ref: "make_input sign ab c = Inr i \<Longrightarrow> input_ref i = coin_ref c"
  by (auto simp: make_input_def input_ref_def coin_ref_def split: jsval.splits sum.splits)

lemma make_inputs_refs:
  "map (make_input sign ab) cs = map Inr ins \<Longrightarrow> map input_ref ins = map coin_ref cs"
proof (induction cs arbitrary: ins)
  case Nil
  then show ?case by simp
next
  case (Cons c cs)
  then obtain i rest where ins: "ins = i # rest" by (cases ins) auto
  with Cons.prems have "make_input sign ab c = Inr i"
    "map (make_input sign ab) cs = map Inr rest"
    by simp_all
  with Cons.IH[of rest] make_input_ref[of sign ab c i] ins show ?case by simp
qed

text \<open>Whatever the outcome, the loop only removes coins from the end of the array.\<close>

lemma spend_loop_frame:
  "\<exists>n. snd (spend_loop sign amt w col chg ins) = w\<lparr>coins := take n (coins w)\<rparr>"
proof (induction sign amt w col chg ins rule: spend_loop.induct)
  case (1 sign amt w col chg ins)
  have popped: "pop w = w\<lparr>coins := take (length (coins w) - 1) (coins w)\<rparr>"
    by (simp add: pop_def butlast_conv_take)
  show ?case
  proof (cases "coins w \<noteq> [] \<and> js_lt col amt")
    case False
    then have "coins w = [] \<or> \<not> js_lt col amt" by auto
    then have "snd (spend_loop sign amt w col chg ins)
                 = w\<lparr>coins := take (length (coins w)) (coins w)\<rparr>"
      by (simp add: spend_loop_stop)
    then show ?thesis by blast
  next
    case True
    let ?c = "last (coins w)"
    let ?a = "amount (output ?c)"
    from True have ne: "coins w \<noteq> []" and lt: "js_lt col amt" by simp_all
    show ?thesis
    proof (cases "make_input sign (addresses w) ?c")
      case (Inl e)
      then show ?thesis using spend_loop_throw[OF ne lt Inl] popped by auto
    next
      case (Inr i)
      consider (gt) "js_gt ?a amt" | (eq) "\<not> js_gt ?a amt" "js_eq ?a amt"
        | (less) "\<not> js_gt ?a amt" "\<not> js_eq ?a amt" by blast
      then show ?thesis
      proof cases
        case gt
        then show ?thesis using spend_loop_greater[OF ne lt Inr] popped by auto
      next
        case eq
        then show ?thesis using spend_loop_equal[OF ne lt Inr] popped by auto
      next
        case less
        have mi': "make_input sign (addresses (pop w)) ?c = Inr i"
          using Inr by (simp add: pop_def)
        have "\<exists>n. snd (spend_loop sign amt (pop w) (js_add col ?a) chg (ins @ [i]))
                 = (pop w)\<lparr>coins := take n (coins (pop w))\<rparr>"
          using "1.IH"[OF True refl refl _ _ _ _, of "pop w" i] less mi'
          by (simp add: pop_def)
        then obtain n where
          "snd (spend_loop sign amt w col chg ins) = (pop w)\<lparr>coins := take n (coins (pop w))\<rparr>"
          using spend_loop_less[OF ne lt Inr less] by auto
        then have "snd (spend_loop sign amt w col chg ins)
                     = w\<lparr>coins := take (min n (length (coins w) - 1)) (coins w)\<rparr>"
          by (simp add: pop_def butlast_conv_take min.commute)
        then show ?thesis by blast
      qed
    qed
  qed
qed

lemma spendUTXOs_frame_any:
  "\<exists>n. snd (spendUTXOs sign w amt) = w\<lparr>coins := take n (coins w)\<rparr>"
proof (cases "js_gt amt (balance w)")
  case True
  then have "snd (spendUTXOs sign w amt) = w\<lparr>coins := take (length (coins w)) (coins w)\<rparr>"
    by (simp add: spendUTXOs_def)
  then show ?thesis by blast
next
  case False
  then show ?thesis
    using spend_loop_frame[of sign amt w "Fin 0" "Fin 0" "[]"] by (simp add: spendUTXOs_def)
qed

subsection \<open>Runs of the scenarios\<close>

lemmas run_defs = spendUTXOs_def balance_def spend_loop.simps js_gt_def js_sub_def
  to_double_int_exact

lemma spend_15_of_10_10_100:
  "spendUTXOs sample_sign (funded [out_of 10 0, out_of 10 1, out_of 100 2]) (Fin 15)
     = (Inr ([input_for 0, input_for 1], Fin 0), funded [out_of 100 2])"
  by (simp add: scenario_defs run_defs)

lemma spend_30_of_100:
  "spendUTXOs sample_sign (funded [out_of 100 0]) (Fin 30)
     = (Inr ([input_for 0], Fin 70), minted)"
  by (simp add: scenario_defs run_defs)

lemma spend_0_of_100:
  "spendUTXOs sample_sign (funded [out_of 100 0]) (Fin 0)
     = (Inr ([], Fin 0), funded [out_of 100 0])"
  by (simp add: scenario_defs run_defs)

lemma coins_funded_10_10_100:
  "coins (funded [out_of 10 0, out_of 10 1, out_of 100 2])
     = [mk_coin (out_of 100 2), mk_coin (out_of 10 1), mk_coin (out_of 10 0)]"
  by (simp add: scenario_defs)

lemma unlockable_funded_10_10_100:
  "unlockable sample_sign (funded [out_of 10 0, out_of 10 1, out_of 100 2])"
  by (simp add: scenario_defs unlockable_def can_unlock_def)

lemma balance_funded_10_10_100:
  "balance (funded [out_of 10 0, out_of 10 1, out_of 100 2]) = Fin 120"
  by (simp add: scenario_defs run_defs)

lemma balance_funded_100: "balance (funded [out_of 100 0]) = Fin 100"
  by (simp add: scenario_defs run_defs)

subsection \<open>Runs beyond the exact range\<close>

lemma round_double_0: "round_double 0 = 0"
  by (simp add: round_double_def)

lemma round_double_1: "round_double 1 = 1"
  by (rule round_double_int_exact) simp_all

text \<open>A multiple of a power of two is rounded as its numerator is.\<close>

lemma round_nat_shift: "round_nat (n * 2 ^ c) = round_nat n * 2 ^ c"
proof (cases "n < 2 ^ 53")
  case True
  then have "round_nat n = n" by (intro round_nat_exact) (simp add: excess_small)
  moreover have "round_nat (n * 2 ^ c) = n * 2 ^ c"
    using True by (intro round_nat_exact dvd_excess)
  ultimately show ?thesis by simp
next
  case False
  then have e: "excess (n * 2 ^ c) = excess n + c" by (intro excess_shift) simp
  have "(of_nat (n * 2 ^ c) :: real) / of_nat (2 ^ (excess n + c))
          = of_nat n / of_nat (2 ^ excess n)"
    by (simp add: power_add)
  then show ?thesis
    unfolding round_nat_def e by (simp add: power_add)
qed

lemma round_double_dyadic:
  assumes "j \<le> 1074"
  shows "round_double (of_nat n / 2 ^ j) = of_nat (round_nat n) / 2 ^ j"
proof -
  have p: "(2::real) ^ 1074 = 2 ^ j * 2 ^ (1074 - j)"
    using assms by (simp flip: power_add)
  have nn: "(0::real) \<le> of_nat n / 2 ^ j" by simp
  have sc: "(of_nat n :: real) / 2 ^ j * 2 ^ 1074 = of_nat (n * 2 ^ (1074 - j))"
    unfolding p by simp
  have "round_double (of_nat n / 2 ^ j) = of_nat (round_nat (n * 2 ^ (1074 - j))) / 2 ^ 1074"
    using round_double_scaled[OF nn sc] by (simp add: round_nat_def)
  also have "\<dots> = of_nat (round_nat n * 2 ^ (1074 - j)) / (2 ^ j * 2 ^ (1074 - j))"
    unfolding round_nat_shift p ..
  also have "\<dots> = of_nat (round_nat n) / 2 ^ j" by simp
  finally show ?thesis .
qed

text \<open>Fractions: \<^verbatim>\<open>0.1 + 0.2\<close> is \<^verbatim>\<open>0.30000000000000004\<close>. The three doubles
  are \<open>3602879701896397 / 2^55\<close>, \<open>3602879701896397 / 2^54\<close> and
  \<open>1351079888211149 / 2^52\<close>.\<close>

lemma tenth_plus_fifth:
  "js_add (Fin (3602879701896397 / 2 ^ 55)) (Fin (3602879701896397 / 2 ^ 54))
     = Fin (1351079888211149 / 2 ^ 52)"
proof -
  have s: "(3602879701896397 / 2 ^ 55 + 3602879701896397 / 2 ^ 54 :: real)
             = of_nat 10808639105689191 / 2 ^ 55"
    by simp
  have r: "round_nat 10808639105689191 = 10808639105689192"
    by (simp add: round_nat_def excess_big excess_small rhe_def Let_def)
  have "round_double (of_nat 10808639105689191 / 2 ^ 55) = of_nat 10808639105689192 / 2 ^ 55"
    using round_double_dyadic[of 55 10808639105689191] r by simp
  then have d: "round_double (3602879701896397 / 2 ^ 55 + 3602879701896397 / 2 ^ 54)
                  = 1351079888211149 / 2 ^ 52"
    unfolding s by simp
  show ?thesis
    by (simp only: js_add.simps val.simps to_double_def Let_def d) simp
qed

lemmas big_defs = spendUTXOs_def balance_def spend_loop.simps round_eval round_double_0
  round_double_1

text \<open>Four coins of \<open>2^53\<close>, 1, 1 and 1, ingested in this order: the getter adds from the
  newest coin on and returns \<open>2^53 + 4\<close>.\<close>

lemma balance_of_big_and_three_ones:
  "balance (funded [out_of (2 ^ 53) 0, out_of 1 1, out_of 1 2, out_of 1 3]) = Fin (2 ^ 53 + 4)"
  by (simp add: scenario_defs big_defs)

lemma sum_in_order_of_big_and_three_ones:
  "foldl js_add (Fin 0) [Fin (2 ^ 53), Fin 1, Fin 1, Fin 1] = Fin (2 ^ 53)"
  by (simp add: big_defs)

text \<open>Coins of \<open>2^53\<close> and 1: the getter returns \<open>2^53\<close>, and after the coin of
  \<open>2^53\<close> is spent it returns 1.\<close>

lemma spend_big_of_big_and_one:
  "spendUTXOs sample_sign (funded [out_of (2 ^ 53) 0, out_of 1 1]) (Fin (2 ^ 53))
     = (Inr ([input_for 0], Fin 0), funded [out_of 1 1])"
  by (simp add: scenario_defs big_defs)

lemma balance_of_big_and_one: "balance (funded [out_of (2 ^ 53) 0, out_of 1 1]) = Fin (2 ^ 53)"
  by (simp add: scenario_defs big_defs)

lemma balance_of_one: "balance (funded [out_of 1 1]) = Fin 1"
  by (simp add: scenario_defs big_defs)

text \<open>Coins of 1 and \<open>2^53 + 2\<close>: the exact sum is \<open>2^53 + 3\<close>, the getter returns
  \<open>2^53 + 4\<close>, and a request for \<open>2^53 + 4\<close> is served with both coins.\<close>

lemma spend_at_rounded_balance:
  "balance (funded [out_of 1 0, out_of (2 ^ 53 + 2) 1]) = Fin (2 ^ 53 + 4) \<and>
   spendUTXOs sample_sign (funded [out_of 1 0, out_of (2 ^ 53 + 2) 1]) (Fin (2 ^ 53 + 4))
     = (Inr ([input_for 0, input_for 1], Fin 0), minted)"
  by (simp add: scenario_defs big_defs)

text \<open>One coin of \<open>2^53 + 2\<close> and the target 1: the change is the double nearest to
  \<open>2^53 + 1\<close>, which is \<open>2^53\<close>.\<close>

lemma change_is_rounded:
  "spendUTXOs sample_sign (funded [out_of (2 ^ 53 + 2) 0]) (Fin 1)
     = (Inr ([input_for 0], Fin (2 ^ 53)), minted)"
  by (simp add: scenario_defs big_defs)

text \<open>Coins of \<open>2^53\<close>, 1, 1, 1, 1 (oldest first) and the target \<open>2^53 + 2\<close>: the
  running total stays at \<open>2^53\<close>, and all five coins are removed.\<close>

lemma spend_all_five:
  "spendUTXOs sample_sign
     (funded [out_of (2 ^ 53) 0, out_of 1 1, out_of 1 2, out_of 1 3, out_of 1 4])
     (Fin (2 ^ 53 + 2))
     = (Inr ([input_for 0, input_for 1, input_for 2, input_for 3, input_for 4], Fin 0), minted)"
  by (simp add: scenario_defs big_defs)

subsection \<open>Balance and ingestion\<close>

text \<open>
  Claim C5, as the code has it. The getter adds the held amounts in double precision,
  from the newest coin to the oldest. When the held amounts are non-negative whole
  numbers with an exact sum of at most \<open>2^53\<close>, the balance is that exact sum. Hence,
  when outputs with such amounts are ingested one after the other into a wallet that
  holds no coin and none of the calls throws, the balance afterwards is the exact sum
  of the ingested amounts. \<open>balance\<close> is a function of the wallet that returns a
  number only, so reading it changes nothing.
\<close>

theorem balance_is_exact_sum_in_exact_range:
  "(exact_range (coins w) \<longrightarrow> balance w = Fin (exact_total (coins w))) \<and>
   (coins w = [] \<and> ingest_all w us = (Inr (), w') \<and> exact_range (map mk_coin us)
      \<longrightarrow> balance w' = Fin (sum_list (map (\<lambda>x. val (amount (fst x))) us)))"
proof (intro conjI impI)
  assume "exact_range (coins w)"
  then show "balance w = Fin (exact_total (coins w))" by (rule balance_exact)
next
  assume a: "coins w = [] \<and> ingest_all w us = (Inr (), w') \<and> exact_range (map mk_coin us)"
  then have c: "coins w' = rev (map mk_coin us)"
    using ingest_all_coins[of w us w'] by simp
  with a have "exact_range (coins w')" by (simp add: exact_range_rev)
  then have "balance w' = Fin (exact_total (coins w'))" by (rule balance_exact)
  then show "balance w' = Fin (sum_list (map (\<lambda>x. val (amount (fst x))) us))"
    by (simp add: c exact_total_rev exact_total_mk_coin)
qed

theorem balance_is_exact_sum_in_exact_range_witness:
  "exact_range (coins (funded [out_of 10 0, out_of 20 1])) \<and>
   coins minted = [] \<and>
   ingest_all minted [out_of 10 0, out_of 20 1] = (Inr (), funded [out_of 10 0, out_of 20 1]) \<and>
   exact_range (map mk_coin [out_of 10 0, out_of 20 1]) \<and>
   balance (funded [out_of 10 0, out_of 20 1]) = Fin 30"
proof -
  have h0: "exact_range (coins (funded [out_of 10 0, out_of 20 1]))"
    by (simp add: scenario_defs exact_range_def exact_total_def)
  have h: "coins minted = [] \<and>
      ingest_all minted [out_of 10 0, out_of 20 1] = (Inr (), funded [out_of 10 0, out_of 20 1]) \<and>
      exact_range (map mk_coin [out_of 10 0, out_of 20 1])"
    by (simp add: scenario_defs exact_range_def exact_total_def)
  have "balance (funded [out_of 10 0, out_of 20 1])
          = Fin (sum_list (map (\<lambda>x. val (amount (fst x))) [out_of 10 0, out_of 20 1]))"
    using balance_is_exact_sum_in_exact_range[of minted "[out_of 10 0, out_of 20 1]"
        "funded [out_of 10 0, out_of 20 1]"] h by blast
  then show ?thesis using h0 h by (simp add: out_of_def)
qed

text \<open>
  The claim C5 as it is written fails: after the ingestion of \<open>2^53\<close>, 1, 1 and 1 into
  a wallet without coins the balance is \<open>2^53 + 4\<close>, where the sum of the amounts is
  \<open>2^53 + 3\<close>, and \<open>2^53\<close> when it is added up in double precision in the order of
  ingestion.
\<close>

theorem balance_differs_from_sum:
  "coins minted = [] \<and>
   ingest_all minted [out_of (2 ^ 53) 0, out_of 1 1, out_of 1 2, out_of 1 3]
     = (Inr (), funded [out_of (2 ^ 53) 0, out_of 1 1, out_of 1 2, out_of 1 3]) \<and>
   balance (funded [out_of (2 ^ 53) 0, out_of 1 1, out_of 1 2, out_of 1 3]) = Fin (2 ^ 53 + 4) \<and>
   exact_total (coins (funded [out_of (2 ^ 53) 0, out_of 1 1, out_of 1 2, out_of 1 3]))
     = 2 ^ 53 + 3 \<and>
   foldl js_add (Fin 0) [Fin (2 ^ 53), Fin 1, Fin 1, Fin 1] = Fin (2 ^ 53)"
  using balance_of_big_and_three_ones sum_in_order_of_big_and_three_ones
  by (simp add: scenario_defs exact_total_def)

subsection \<open>Spending: the check of the funds\<close>

text \<open>
  Claim C3. A request for more than the balance, compared as the code compares it with
  the value of the getter, throws the insufficient-funds error and leaves the wallet
  as it was: coins, address table and key pair.
\<close>

theorem spendUTXOs_insufficient_funds:
  "js_gt amt (balance w) \<Longrightarrow> spendUTXOs sign w amt = (Inl InsufficientFunds, w)"
  by (simp add: spendUTXOs_def)

theorem spendUTXOs_insufficient_funds_witness:
  "js_gt (Fin 101) (balance (funded [out_of 100 0])) \<and>
   spendUTXOs sample_sign (funded [out_of 100 0]) (Fin 101)
     = (Inl InsufficientFunds, funded [out_of 100 0])"
proof -
  have h: "js_gt (Fin 101) (balance (funded [out_of 100 0]))"
    by (simp add: balance_funded_100 js_gt_def)
  from spendUTXOs_insufficient_funds[OF h, of sample_sign] h show ?thesis by simp
qed

text \<open>
  Claim C9. In a wallet whose coins all have non-negative amounts, a request for the
  amount 0 throws nothing, returns no input and change 0, and leaves the wallet as it
  was.
\<close>

theorem spendUTXOs_zero:
  "list_all (\<lambda>c. nonneg (amount (output c))) (coins w) \<Longrightarrow>
   spendUTXOs sign w (Fin 0) = (Inr ([], Fin 0), w)"
proof -
  assume "list_all (\<lambda>c. nonneg (amount (output c))) (coins w)"
  then have "nonneg (balance w)"
    unfolding balance_collect by (intro collect_from_nonneg) simp_all
  then have "\<not> js_gt (Fin 0) (balance w)"
    by (cases "balance w") (simp_all add: js_gt_def)
  then show ?thesis by (simp add: spendUTXOs_def spend_loop_stop)
qed

theorem spendUTXOs_zero_witness:
  "list_all (\<lambda>c. nonneg (amount (output c))) (coins (funded [out_of 10 0, out_of 20 1])) \<and>
   spendUTXOs sample_sign (funded [out_of 10 0, out_of 20 1]) (Fin 0)
     = (Inr ([], Fin 0), funded [out_of 10 0, out_of 20 1])"
proof -
  have h: "list_all (\<lambda>c. nonneg (amount (output c))) (coins (funded [out_of 10 0, out_of 20 1]))"
    by (simp add: scenario_defs)
  from spendUTXOs_zero[OF h, of sample_sign] h show ?thesis by simp
qed

subsection \<open>Spending: which coins the loop takes\<close>

text \<open>
  Claim C1, as the code has it. Take a wallet in which no held amount is
  \<^verbatim>\<open>NaN\<close> and the input of every held coin can be built, and a target that does
  not exceed the balance. Then \<open>spendUTXOs\<close> returns. The coins it removed are the
  oldest ones, \<open>consumed\<close> in the order of removal, with one input built from each.
  Every removed coin but the last has an amount below the target, and before each
  removal the running total, the double-precision sum of the amounts removed so far,
  was below the target: while that holds and a coin is left, a coin below the target
  is removed, its input appended, its amount added to the total, and the loop goes on.
  The loop ends only when no coin is left, or the running total is no longer below the
  target, or the coin removed last has an amount greater than or equal to the target.
\<close>

theorem spendUTXOs_selection:
  assumes "\<not> js_gt amt (balance w)" and "unlockable sign w"
    and "list_all (\<lambda>c. amount (output c) \<noteq> NaN) (coins w)"
  shows "\<exists>ins chg w' consumed.
           spendUTXOs sign w amt = (Inr (ins, chg), w')
         \<and> coins w = coins w' @ rev consumed
         \<and> map (make_input sign (addresses w)) consumed = map Inr ins
         \<and> (\<forall>c \<in> set (butlast consumed). js_lt (amount (output c)) amt)
         \<and> (\<forall>j < length consumed. js_lt (collect_from (Fin 0) (take j consumed)) amt)
         \<and> (coins w' = [] \<or> \<not> js_lt (collect_from (Fin 0) consumed) amt
              \<or> (consumed \<noteq> [] \<and> (js_gt (amount (output (last consumed))) amt
                                    \<or> js_eq (amount (output (last consumed))) amt)))"
proof -
  obtain ins chg w' where
    run: "spend_loop sign amt w (Fin 0) (Fin 0) [] = (Inr (ins, chg), w')"
    using spend_loop_returns[OF assms(2), of amt "Fin 0" "Fin 0" "[]"] by auto
  then obtain consumed new where n: "ins = [] @ new"
    and lp: "loop_post sign amt w (Fin 0) (Fin 0) chg w' consumed new"
    using spend_loop_post by blast
  from lp have c: "coins w = coins w' @ rev consumed"
    and m: "map (make_input sign (addresses w)) consumed = map Inr new"
    and b: "\<forall>c \<in> set (butlast consumed).
              \<not> js_gt (amount (output c)) amt \<and> \<not> js_eq (amount (output c)) amt"
    and g: "\<forall>j < length consumed. js_lt (collect_from (Fin 0) (take j consumed)) amt"
    and t: "coins w' = [] \<or> \<not> js_lt (collect_from (Fin 0) consumed) amt
              \<or> (consumed \<noteq> [] \<and> (js_gt (amount (output (last consumed))) amt
                                    \<or> js_eq (amount (output (last consumed))) amt))"
    by (simp_all add: loop_post_def)
  have less: "\<forall>c \<in> set (butlast consumed). js_lt (amount (output c)) amt"
  proof
    fix c assume cb: "c \<in> set (butlast consumed)"
    then have "c \<in> set consumed" by (rule in_set_butlastD)
    then have "c \<in> set (coins w)" using c by simp
    then have nc: "amount (output c) \<noteq> NaN" using assms(3) by (simp add: list_all_iff)
    from cb have "0 < length consumed" by (cases consumed) auto
    then have "js_lt (collect_from (Fin 0) (take 0 consumed)) amt" using g by blast
    then have na: "amt \<noteq> NaN" using js_lt_not_NaN by blast
    from b cb have "\<not> js_gt (amount (output c)) amt \<and> \<not> js_eq (amount (output c)) amt"
      by blast
    then show "js_lt (amount (output c)) amt" using js_lt_iff[OF nc na] by simp
  qed
  have "spendUTXOs sign w amt = (Inr (ins, chg), w')"
    using run assms(1) by (simp add: spendUTXOs_def)
  then show ?thesis using c m n less g t by auto
qed

theorem spendUTXOs_selection_witness:
  "\<not> js_gt (Fin 15) (balance (funded [out_of 10 0, out_of 10 1, out_of 100 2])) \<and>
   unlockable sample_sign (funded [out_of 10 0, out_of 10 1, out_of 100 2]) \<and>
   list_all (\<lambda>c. amount (output c) \<noteq> NaN)
     (coins (funded [out_of 10 0, out_of 10 1, out_of 100 2])) \<and>
   (\<exists>ins chg w' consumed.
      spendUTXOs sample_sign (funded [out_of 10 0, out_of 10 1, out_of 100 2]) (Fin 15)
        = (Inr (ins, chg), w')
      \<and> coins (funded [out_of 10 0, out_of 10 1, out_of 100 2]) = coins w' @ rev consumed
      \<and> map (make_input sample_sign
               (addresses (funded [out_of 10 0, out_of 10 1, out_of 100 2]))) consumed
           = map Inr ins
      \<and> (\<forall>c \<in> set (butlast consumed). js_lt (amount (output c)) (Fin 15))
      \<and> (\<forall>j < length consumed. js_lt (collect_from (Fin 0) (take j consumed)) (Fin 15))
      \<and> (coins w' = [] \<or> \<not> js_lt (collect_from (Fin 0) consumed) (Fin 15)
           \<or> (consumed \<noteq> [] \<and> (js_gt (amount (output (last consumed))) (Fin 15)
                                 \<or> js_eq (amount (output (last consumed))) (Fin 15)))))"
proof -
  have h1: "\<not> js_gt (Fin 15) (balance (funded [out_of 10 0, out_of 10 1, out_of 100 2]))"
    by (simp add: balance_funded_10_10_100 js_gt_def)
  note h2 = unlockable_funded_10_10_100
  have h3: "list_all (\<lambda>c. amount (output c) \<noteq> NaN)
     (coins (funded [out_of 10 0, out_of 10 1, out_of 100 2]))"
    by (simp add: scenario_defs)
  from spendUTXOs_selection[OF h1 h2 h3] h1 h2 h3 show ?thesis by blast
qed

text \<open>
  The claim C1 as it is written fails: with coins of 10, 10 and 100 (oldest first) and
  the target 15, the loop ends after the two coins of 10, although neither has an
  amount of at least 15 and the coin of 100 is still held. The guard
  \<^verbatim>\<open>collectAmount < amount\<close> ended it.
\<close>

theorem spend_stops_on_collected_total:
  "\<not> js_gt (Fin 15) (balance (funded [out_of 10 0, out_of 10 1, out_of 100 2])) \<and>
   spendUTXOs sample_sign (funded [out_of 10 0, out_of 10 1, out_of 100 2]) (Fin 15)
     = (Inr ([input_for 0, input_for 1], Fin 0), funded [out_of 100 2]) \<and>
   coins (funded [out_of 10 0, out_of 10 1, out_of 100 2])
     = coins (funded [out_of 100 2]) @ rev [mk_coin (out_of 10 0), mk_coin (out_of 10 1)] \<and>
   js_lt (amount (output (mk_coin (out_of 10 0)))) (Fin 15) \<and>
   js_lt (amount (output (mk_coin (out_of 10 1)))) (Fin 15) \<and>
   coins (funded [out_of 100 2]) \<noteq> []"
  using spend_15_of_10_10_100
  by (simp add: balance_funded_10_10_100 coins_funded_10_10_100 js_gt_def)
    (simp add: scenario_defs)

text \<open>
  Claim C2, as the code has it. For a target that is strictly positive and does not
  exceed the balance, when the oldest coin has an amount greater than or equal to the
  target and its input can be built, \<open>spendUTXOs\<close> removes that coin and no other and
  returns its input alone; the change is the coin's amount minus the target, as the
  double-precision subtraction gives it, when the amount is strictly greater, and 0
  when it equals the target.
\<close>

theorem spendUTXOs_first_coin_covers:
  assumes "coins w \<noteq> []" and "js_lt (Fin 0) amt" and "\<not> js_gt amt (balance w)"
    and "js_gt (amount (output (last (coins w)))) amt
         \<or> js_eq (amount (output (last (coins w)))) amt"
    and "make_input sign (addresses w) (last (coins w)) = Inr i"
  shows "spendUTXOs sign w amt =
           (Inr ([i], if js_gt (amount (output (last (coins w)))) amt
                      then js_sub (amount (output (last (coins w)))) amt else Fin 0),
            w\<lparr>coins := butlast (coins w)\<rparr>)"
proof (cases "js_gt (amount (output (last (coins w)))) amt")
  case True
  then show ?thesis
    using assms(3) spend_loop_greater[OF assms(1,2,5) True, of "Fin 0" "[]"] js_sub_pos[OF True]
    by (simp add: spendUTXOs_def pop_def)
next
  case False
  with assms(4) have "js_eq (amount (output (last (coins w)))) amt" by simp
  then show ?thesis
    using assms(3) False spend_loop_equal[OF assms(1,2,5) False, of "Fin 0" "[]"]
    by (simp add: spendUTXOs_def pop_def)
qed

theorem spendUTXOs_first_coin_covers_witness:
  "coins (funded [out_of 100 0]) \<noteq> [] \<and> js_lt (Fin 0) (Fin 30) \<and>
   \<not> js_gt (Fin 30) (balance (funded [out_of 100 0])) \<and>
   js_gt (amount (output (last (coins (funded [out_of 100 0]))))) (Fin 30) \<and>
   make_input sample_sign (addresses (funded [out_of 100 0]))
     (last (coins (funded [out_of 100 0]))) = Inr (input_for 0) \<and>
   spendUTXOs sample_sign (funded [out_of 100 0]) (Fin 30)
     = (Inr ([input_for 0], Fin 70),
        (funded [out_of 100 0])\<lparr>coins := butlast (coins (funded [out_of 100 0]))\<rparr>) \<and>
   balance ((funded [out_of 100 0])\<lparr>coins := butlast (coins (funded [out_of 100 0]))\<rparr>)
     = Fin 0"
proof -
  have h1: "coins (funded [out_of 100 0]) \<noteq> []" by (simp add: scenario_defs)
  have h2: "js_lt (Fin 0) (Fin 30)" by simp
  have h3: "\<not> js_gt (Fin 30) (balance (funded [out_of 100 0]))"
    by (simp add: balance_funded_100 js_gt_def)
  have a: "amount (output (last (coins (funded [out_of 100 0])))) = Fin 100"
    by (simp add: scenario_defs)
  have g: "js_gt (amount (output (last (coins (funded [out_of 100 0]))))) (Fin 30)"
    by (simp add: a js_gt_def)
  then have h4: "js_gt (amount (output (last (coins (funded [out_of 100 0]))))) (Fin 30)
      \<or> js_eq (amount (output (last (coins (funded [out_of 100 0]))))) (Fin 30)" by simp
  have h5: "make_input sample_sign (addresses (funded [out_of 100 0]))
     (last (coins (funded [out_of 100 0]))) = Inr (input_for 0)"
    by (simp add: scenario_defs)
  have d: "js_sub (Fin 100) (Fin 30) = Fin 70"
    using js_sub_exact[of 100 30] by simp
  have b: "balance ((funded [out_of 100 0])\<lparr>coins := butlast (coins (funded [out_of 100 0]))\<rparr>)
      = Fin 0"
    by (simp add: scenario_defs balance_def)
  from spendUTXOs_first_coin_covers[OF h1 h2 h3 h4 h5] h1 h2 h3 g h5 a b d
  show ?thesis by simp
qed

text \<open>
  The claim C2 as it is written fails at the target 0: the only coin, of amount 100, has
  an amount greater than the target, and the target does not exceed the balance, but no
  coin is removed and no input is returned.
\<close>

theorem spend_zero_takes_no_coin:
  "coins (funded [out_of 100 0]) \<noteq> [] \<and>
   \<not> js_gt (Fin 0) (balance (funded [out_of 100 0])) \<and>
   js_gt (amount (output (last (coins (funded [out_of 100 0]))))) (Fin 0) \<and>
   spendUTXOs sample_sign (funded [out_of 100 0]) (Fin 0)
     = (Inr ([], Fin 0), funded [out_of 100 0])"
  using spend_0_of_100
  by (simp add: balance_funded_100 js_gt_def) (simp add: scenario_defs)

subsection \<open>Spending: order and frame\<close>

text \<open>
  Claim C6. Let outputs be ingested one after the other, none of the calls throwing,
  and let a call of \<open>spendUTXOs\<close> then return. The queue of the wallet, oldest first,
  is the coins held before the ingestion followed by the ingested coins in the order
  of ingestion. The returned inputs refer, in their order, to the first coins of that
  queue, and the coins still held are the rest of the queue.
\<close>

theorem spend_consumes_in_insertion_order:
  assumes "ingest_all w0 us = (Inr (), w1)"
    and "spendUTXOs sign w1 amt = (Inr (ins, chg), w2)"
  shows "\<exists>n. n = length ins
         \<and> map input_ref ins = map coin_ref (take n (rev (coins w0) @ map mk_coin us))
         \<and> rev (coins w2) = drop n (rev (coins w0) @ map mk_coin us)"
proof -
  from assms(2) have run: "spend_loop sign amt w1 (Fin 0) (Fin 0) [] = (Inr (ins, chg), w2)"
    by (simp add: spendUTXOs_def split: if_splits)
  then obtain consumed new where n: "ins = [] @ new"
    and lp: "loop_post sign amt w1 (Fin 0) (Fin 0) chg w2 consumed new"
    using spend_loop_post by blast
  from lp n have c: "coins w1 = coins w2 @ rev consumed"
    and m: "map (make_input sign (addresses w1)) consumed = map Inr ins"
    by (simp_all add: loop_post_def)
  from m have len: "length consumed = length ins" by (metis length_map)
  have "coins w1 = rev (map mk_coin us) @ coins w0"
    using ingest_all_coins[OF assms(1)] by simp
  then have "rev (coins w1) = rev (coins w0) @ map mk_coin us" by simp
  then have q: "rev (coins w0) @ map mk_coin us = consumed @ rev (coins w2)"
    using c by simp
  show ?thesis
    using q len make_inputs_refs[OF m] by simp
qed

theorem spend_consumes_in_insertion_order_witness:
  "ingest_all minted [out_of 10 0, out_of 10 1, out_of 100 2]
     = (Inr (), funded [out_of 10 0, out_of 10 1, out_of 100 2]) \<and>
   spendUTXOs sample_sign (funded [out_of 10 0, out_of 10 1, out_of 100 2]) (Fin 15)
     = (Inr ([input_for 0, input_for 1], Fin 0), funded [out_of 100 2]) \<and>
   (\<exists>n. n = length [input_for 0, input_for 1]
      \<and> map input_ref [input_for 0, input_for 1]
          = map coin_ref (take n (rev (coins minted)
                @ map mk_coin [out_of 10 0, out_of 10 1, out_of 100 2]))
      \<and> rev (coins (funded [out_of 100 2]))
          = drop n (rev (coins minted) @ map mk_coin [out_of 10 0, out_of 10 1, out_of 100 2]))"
proof -
  have h1: "ingest_all minted [out_of 10 0, out_of 10 1, out_of 100 2]
     = (Inr (), funded [out_of 10 0, out_of 10 1, out_of 100 2])"
    by (simp add: scenario_defs)
  note h2 = spend_15_of_10_10_100
  from spend_consumes_in_insertion_order[OF h1 h2] h1 h2 show ?thesis by blast
qed

text \<open>
  Claim C10, as the code has it. A call of \<open>spendUTXOs\<close> that returns leaves the
  address table (and the key pair of the wallet) as they were. The coins held before
  are the coins held after followed by the removed coins: nothing else is removed and
  nothing is added. There is one returned input per removed coin, built from it and
  referring to it, in the order of removal. When the amounts held before the call are
  non-negative whole numbers with an exact sum of at most \<open>2^53\<close>, the balance before
  is that sum and the balance afterwards is that sum minus the amounts of the removed
  coins.
\<close>

theorem spendUTXOs_frame:
  assumes "spendUTXOs sign w amt = (Inr (ins, chg), w')"
  shows "addresses w' = addresses w \<and> kp w' = kp w \<and>
         (\<exists>consumed. coins w = coins w' @ rev consumed
            \<and> map (make_input sign (addresses w)) consumed = map Inr ins
            \<and> map input_ref ins = map coin_ref consumed
            \<and> (exact_range (coins w) \<longrightarrow>
                  balance w = Fin (exact_total (coins w)) \<and>
                  balance w' = Fin (exact_total (coins w) - exact_total consumed)))"
proof -
  from assms have run: "spend_loop sign amt w (Fin 0) (Fin 0) [] = (Inr (ins, chg), w')"
    by (simp add: spendUTXOs_def split: if_splits)
  then obtain consumed new where n: "ins = [] @ new"
    and lp: "loop_post sign amt w (Fin 0) (Fin 0) chg w' consumed new"
    using spend_loop_post by blast
  from lp have c: "coins w = coins w' @ rev consumed"
    and m: "map (make_input sign (addresses w)) consumed = map Inr ins"
    and a: "addresses w' = addresses w" "kp w' = kp w"
    using n by (simp_all add: loop_post_def)
  have tot: "exact_total (coins w) = exact_total (coins w') + exact_total consumed"
    by (simp add: c exact_total_append exact_total_rev)
  have ex: "balance w = Fin (exact_total (coins w)) \<and>
            balance w' = Fin (exact_total (coins w) - exact_total consumed)"
    if er: "exact_range (coins w)"
  proof -
    from er have wh: "list_all (\<lambda>c. whole (amount (output c))) (coins w')"
      "list_all (\<lambda>c. whole (amount (output c))) consumed"
      by (simp_all add: exact_range_def c)
    from exact_total_whole[OF wh(2)] have "0 \<le> exact_total consumed" by simp
    with er tot have "exact_total (coins w') \<le> 2 ^ 53" by (simp add: exact_range_def)
    with wh(1) have "exact_range (coins w')" by (simp add: exact_range_def)
    then have "balance w' = Fin (exact_total (coins w'))" by (rule balance_exact)
    with balance_exact[OF er] tot show ?thesis by simp
  qed
  show ?thesis using c m a make_inputs_refs[OF m] ex by auto
qed

theorem spendUTXOs_frame_witness:
  "spendUTXOs sample_sign (funded [out_of 10 0, out_of 10 1, out_of 100 2]) (Fin 15)
     = (Inr ([input_for 0, input_for 1], Fin 0), funded [out_of 100 2]) \<and>
   exact_range (coins (funded [out_of 10 0, out_of 10 1, out_of 100 2])) \<and>
   addresses (funded [out_of 100 2])
     = addresses (funded [out_of 10 0, out_of 10 1, out_of 100 2]) \<and>
   kp (funded [out_of 100 2]) = kp (funded [out_of 10 0, out_of 10 1, out_of 100 2]) \<and>
   (\<exists>consumed.
      coins (funded [out_of 10 0, out_of 10 1, out_of 100 2])
        = coins (funded [out_of 100 2]) @ rev consumed
      \<and> map (make_input sample_sign
               (addresses (funded [out_of 10 0, out_of 10 1, out_of 100 2]))) consumed
           = map Inr [input_for 0, input_for 1]
      \<and> map input_ref [input_for 0, input_for 1] = map coin_ref consumed
      \<and> balance (funded [out_of 10 0, out_of 10 1, out_of 100 2])
           = Fin (exact_total (coins (funded [out_of 10 0, out_of 10 1, out_of 100 2])))
      \<and> balance (funded [out_of 100 2])
           = Fin (exact_total (coins (funded [out_of 10 0, out_of 10 1, out_of 100 2]))
                    - exact_total consumed))"
proof -
  note h = spend_15_of_10_10_100
  have er: "exact_range (coins (funded [out_of 10 0, out_of 10 1, out_of 100 2]))"
    by (simp add: scenario_defs exact_range_def exact_total_def)
  from spendUTXOs_frame[OF h] h er show ?thesis by blast
qed

text \<open>
  The claim C10 as it is written fails in its last part: with coins of \<open>2^53\<close> (the
  older) and 1, the balance is \<open>2^53\<close>; the call for \<open>2^53\<close> removes the coin of
  \<open>2^53\<close> and leaves the balance 1, where the balance before minus the removed
  amount is 0.
\<close>

theorem balance_after_spend_differs:
  "spendUTXOs sample_sign (funded [out_of (2 ^ 53) 0, out_of 1 1]) (Fin (2 ^ 53))
     = (Inr ([input_for 0], Fin 0), funded [out_of 1 1]) \<and>
   coins (funded [out_of (2 ^ 53) 0, out_of 1 1])
     = coins (funded [out_of 1 1]) @ rev [mk_coin (out_of (2 ^ 53) 0)] \<and>
   balance (funded [out_of (2 ^ 53) 0, out_of 1 1]) = Fin (2 ^ 53) \<and>
   balance (funded [out_of 1 1]) = Fin 1 \<and>
   js_sub (balance (funded [out_of (2 ^ 53) 0, out_of 1 1]))
     (amount (output (mk_coin (out_of (2 ^ 53) 0)))) = Fin 0"
  using spend_big_of_big_and_one balance_of_big_and_one balance_of_one
  by (simp add: js_sub_def) (simp add: scenario_defs)

subsection \<open>The address table\<close>

text \<open>A read of the address table gives \<^verbatim>\<open>undefined\<close> exactly for the names that
  are neither registered nor inherited.\<close>

lemma get_prop_Undefined_iff:
  "get_prop ab a = Undefined \<longleftrightarrow> \<not> registered ab a \<and> \<not> inherited ab a"
  by (auto simp: get_prop_def registered_def inherited_def split: option.splits)

lemma get_prop_registered: "registered ab a \<Longrightarrow> \<exists>k. get_prop ab a = KeyPair k"
  by (cases "a = ''__proto__''") (auto simp: get_prop_def registered_def)

lemma registered_set_prop: "registered (set_prop ab a k) a"
  by (simp add: registered_def set_prop_def)

lemma registered_set_prop_mono: "registered ab b \<Longrightarrow> registered (set_prop ab a k) b"
  by (auto simp: registered_def set_prop_def)

lemma registered_hasKey: "registered (addresses w) a \<Longrightarrow> hasKey w a"
  using get_prop_registered[of "addresses w" a] by (auto simp: hasKey_def)

lemma hasKey_after_makeAddress:
  "hasKey (snd (makeAddress calcAddress k w)) (fst (makeAddress calcAddress k w))"
  by (rule registered_hasKey) (simp add: makeAddress_def Let_def registered_set_prop)

lemma registered_makeAddress:
  "registered (addresses w) a \<Longrightarrow> registered (addresses (snd (makeAddress calcAddress k w))) a"
  by (simp add: makeAddress_def Let_def registered_set_prop_mono)

lemma addresses_addUTXO: "addresses (snd (addUTXO w u t i)) = addresses w"
  by (simp add: addUTXO_def)

lemma addresses_spendUTXOs: "addresses (snd (spendUTXOs sign w amt)) = addresses w"
proof -
  obtain n where "snd (spendUTXOs sign w amt) = w\<lparr>coins := take n (coins w)\<rparr>"
    using spendUTXOs_frame_any by blast
  then show ?thesis by simp
qed

lemma hasKey_false: "\<not> registered (addresses w) a \<Longrightarrow> \<not> inherited (addresses w) a \<Longrightarrow> \<not> hasKey w a"
  using get_prop_Undefined_iff[of "addresses w" a] by (simp add: hasKey_def)

lemma addUTXO_unknown_address:
  "\<not> registered (addresses w) (address u) \<Longrightarrow> \<not> inherited (addresses w) (address u) \<Longrightarrow>
   addUTXO w u t i = (Inl UnknownAddress, w)"
  using get_prop_Undefined_iff[of "addresses w" "address u"] by (simp add: addUTXO_def)

text \<open>The invariant under the operations other than the ingestion of an inherited name.\<close>

lemma wallet_inv_constructor: "wallet_inv (constructor k)"
  by (simp add: wallet_inv_def constructor_def)

lemma wallet_inv_makeAddress: "wallet_inv w \<Longrightarrow> wallet_inv (snd (makeAddress calcAddress k w))"
  by (auto simp: wallet_inv_def makeAddress_def Let_def list_all_iff registered_set_prop_mono)

lemma wallet_inv_spendUTXOs: "wallet_inv w \<Longrightarrow> wallet_inv (snd (spendUTXOs sign w amt))"
proof -
  assume inv: "wallet_inv w"
  obtain n where "snd (spendUTXOs sign w amt) = w\<lparr>coins := take n (coins w)\<rparr>"
    using spendUTXOs_frame_any by blast
  then show ?thesis
    using inv by (auto simp: wallet_inv_def list_all_iff dest: in_set_takeD)
qed

lemma wallet_inv_addUTXO:
  "wallet_inv w \<Longrightarrow> registered (addresses w) (address u) \<or> \<not> inherited (addresses w) (address u) \<Longrightarrow>
   wallet_inv (snd (addUTXO w u t i))"
  using get_prop_Undefined_iff[of "addresses w" "address u"]
  by (auto simp: wallet_inv_def addUTXO_def)

text \<open>
  Claim C4 fails on the code. \<open>''toString''\<close> is not registered in the address table
  of a new wallet, but the read \<^verbatim>\<open>this.addresses['toString']\<close> finds the function
  inherited from \<^verbatim>\<open>Object.prototype\<close>, which is not \<^verbatim>\<open>undefined\<close>:
  \<open>addUTXO\<close> throws nothing, stores the coin, and the balance becomes 5.
\<close>

theorem addUTXO_accepts_inherited_name:
  "\<not> registered (addresses (constructor sample_kp)) (address stray_output) \<and>
   addUTXO (constructor sample_kp) stray_output ''tx1'' 0
     = (Inr (), (constructor sample_kp)\<lparr>coins := [mk_coin (stray_output, ''tx1'', 0)]\<rparr>) \<and>
   balance (constructor sample_kp) = Fin 0 \<and>
   balance (snd (addUTXO (constructor sample_kp) stray_output ''tx1'' 0)) = Fin 5"
  by (simp add: scenario_defs registered_def balance_def to_double_int_exact)

text \<open>
  Claim C7 fails on the code, by the same read: a new wallet satisfies the invariant,
  the ingestion of an output for \<open>''toString''\<close> returns normally, and the wallet then
  holds a coin whose address has no key pair in the address table.
\<close>

theorem addUTXO_breaks_address_invariant:
  "wallet_inv (constructor sample_kp) \<and>
   fst (addUTXO (constructor sample_kp) stray_output ''tx1'' 0) = Inr () \<and>
   \<not> wallet_inv (snd (addUTXO (constructor sample_kp) stray_output ''tx1'' 0))"
  by (simp add: scenario_defs wallet_inv_def registered_def)

text \<open>
  Claim C8 fails on the code in its last part, by the same read: on a new wallet, where
  \<open>makeAddress\<close> was never called, \<open>hasKey\<close> is true of \<open>''toString''\<close>. (The first
  two parts hold: \<open>hasKey_after_makeAddress\<close>, \<open>registered_makeAddress\<close>,
  \<open>addresses_addUTXO\<close>, \<open>addresses_spendUTXOs\<close>, \<open>registered_hasKey\<close>.)
\<close>

theorem hasKey_true_of_unminted_name:
  "\<not> registered (addresses (constructor sample_kp)) ''toString'' \<and>
   hasKey (constructor sample_kp) ''toString''"
  by (simp add: scenario_defs registered_def hasKey_def)

end
